theory Spec2Isabelle
  imports Main "HOL-Library.Sublist"
begin

section \<open>Exceptions\<close>

text \<open>
  The exceptions that \<^verbatim>\<open>run_bm25_baseline.py\<close> raises itself or lets through from the
  Python library. Text that goes through the \<^verbatim>\<open>json\<close> module is a list of code points
  (\<open>pystr\<close>), since an escape \<^verbatim>\<open>\uXXXX\<close> can name any of them; file and directory
  names are \<open>string\<close>s.
\<close>

type_synonym pystr = "nat list"

datatype py_error =
    UsageError \<comment> \<open>\<^verbatim>\<open>Exception('Please provide the split when setting="small"')\<close>\<close>
  | UnboundLocalError
  | FileExistsError
  | FileNotFoundError
  | NotADirectoryError
  | IsADirectoryError
  | JavaException \<comment> \<open>whatever the external indexer throws\<close>
  | JSONDecodeError
  | KeyError pystr
  | TypeError
  | ValueError
  | RecursionError
  | OSError \<comment> \<open>too many levels of symbolic links\<close>

text \<open>An exception ends the run; otherwise the next statement goes on with the result.\<close>

definition and_then :: "'e + 'a \<Rightarrow> ('a \<Rightarrow> 'e + 'b) \<Rightarrow> 'e + 'b" where
  "and_then m f = (case m of Inl e \<Rightarrow> Inl e | Inr x \<Rightarrow> f x)"

section \<open>The directory tree below the output path\<close>

text \<open>
  A path is the list of its components below \<^verbatim>\<open>output_path\<close>; \<open>[]\<close> is the output
  directory itself. The tree is an association list from paths to nodes, in the order in
  which a directory scan enumerates the entries. Every name that \<open>create_index\<close> joins to
  a path is taken as one component, and a symbolic link is a leaf: the links that
  \<open>create_index\<close> makes point at shard files.
\<close>

type_synonym path = "string list"

datatype node = RegularFile | Directory | Symlink path

type_synonym fs = "(path \<times> node) list"

text \<open>\<^verbatim>\<open>Path.mkdir(exist_ok=True)\<close>: an existing directory is left alone, any other
  existing node is an error, and the parent must be a directory.\<close>

definition mkdir_exist_ok :: "path \<Rightarrow> fs \<Rightarrow> py_error + fs" where
  "mkdir_exist_ok p fs =
     (case map_of fs p of
        Some Directory \<Rightarrow> Inr fs
      | Some _ \<Rightarrow> Inl FileExistsError
      | None \<Rightarrow>
          (case map_of fs (butlast p) of
             Some Directory \<Rightarrow> Inr (fs @ [(p, Directory)])
           | Some _ \<Rightarrow> Inl NotADirectoryError
           | None \<Rightarrow> Inl FileNotFoundError))"

text \<open>\<^verbatim>\<open>Path.symlink_to\<close>: the link's name must be free.\<close>

definition symlink_to :: "path \<Rightarrow> path \<Rightarrow> fs \<Rightarrow> py_error + fs" where
  "symlink_to link target fs =
     (case map_of fs link of
        Some _ \<Rightarrow> Inl FileExistsError
      | None \<Rightarrow>
          (case map_of fs (butlast link) of
             Some Directory \<Rightarrow> Inr (fs @ [(link, Symlink target)])
           | Some _ \<Rightarrow> Inl NotADirectoryError
           | None \<Rightarrow> Inl FileNotFoundError))"

text \<open>The names in a directory, in scan order; nothing when the path is no directory.\<close>

definition scandir :: "path \<Rightarrow> fs \<Rightarrow> string list" where
  "scandir d fs =
     (if map_of fs d = Some Directory
      then map (\<lambda>e. last (fst e)) (filter (\<lambda>e. fst e \<noteq> [] \<and> butlast (fst e) = d) fs)
      else [])"

text \<open>Shell-style matching of one name against a pattern built from literal characters,
  \<^verbatim>\<open>*\<close> and \<^verbatim>\<open>?\<close>, case-sensitive as on POSIX. Bracket classes are left out: the
  patterns of \<open>create_index\<close> are a split name followed by \<^verbatim>\<open>*.jsonl\<close>, and the splits
  of the pipeline hold no bracket and no separator.\<close>

fun fnmatch :: "string \<Rightarrow> string \<Rightarrow> bool" where
  "fnmatch [] s = (s = [])"
| "fnmatch (p # ps) s =
     (if p = CHR ''*'' then
        (fnmatch ps s \<or> (case s of [] \<Rightarrow> False | _ # t \<Rightarrow> fnmatch (p # ps) t))
      else (case s of [] \<Rightarrow> False | c # t \<Rightarrow> (p = CHR ''?'' \<or> p = c) \<and> fnmatch ps t))"

text \<open>A pattern without wildcard.\<close>

definition literal :: "string \<Rightarrow> bool" where
  "literal s = (CHR ''*'' \<notin> set s \<and> CHR ''?'' \<notin> set s)"

text \<open>\<^verbatim>\<open>Path.glob\<close> with a one-component pattern: the matching entries of the directory,
  as paths.\<close>

definition glob :: "string \<Rightarrow> path \<Rightarrow> fs \<Rightarrow> path list" where
  "glob pat d fs = map (\<lambda>n. d @ [n]) (filter (fnmatch pat) (scandir d fs))"

section \<open>create_index\<close>

text \<open>The external interface: how a path prints (\<^verbatim>\<open>str(output_path / ...)\<close> and
  \<^verbatim>\<open>str(p.resolve())\<close>) and what the Anserini indexer does to the tree; \<open>None\<close> is a
  failed indexer run.\<close>

record env =
  str_path :: "path \<Rightarrow> string"
  str_resolved :: "path \<Rightarrow> string"
  anserini_index :: "string list \<Rightarrow> fs \<Rightarrow> fs option"

text \<open>Python's truth test \<^verbatim>\<open>not split\<close> and the formatting of \<^verbatim>\<open>{split}\<close> in an
  f-string.\<close>

definition falsy :: "string option \<Rightarrow> bool" where
  "falsy split = (split = None \<or> split = Some [])"

definition fstr :: "string option \<Rightarrow> string" where
  "fstr split = (case split of None \<Rightarrow> ''None'' | Some s \<Rightarrow> s)"

text \<open>\<^verbatim>\<open>postfix = "." + split if setting == "small" else ""\<close>\<close>

definition postfix :: "string \<Rightarrow> string option \<Rightarrow> py_error + string" where
  "postfix setting split =
     (if setting = ''small''
      then (case split of None \<Rightarrow> Inl TypeError | Some s \<Rightarrow> Inr (''.'' @ s))
      else Inr [])"

text \<open>Lines 75 to 86, for one of the two collections \<open>coll\<close> (\<^verbatim>\<open>text-collection\<close>,
  \<^verbatim>\<open>image-collection\<close>): the shards that the setting selects. A setting outside the three
  leaves the list unbound, which the loop at line 88 reports.\<close>

definition jsonl_paths :: "string \<Rightarrow> string option \<Rightarrow> string \<Rightarrow> fs \<Rightarrow> py_error + path list" where
  "jsonl_paths setting split coll fs =
     (if setting = ''small'' then Inr (glob (fstr split @ ''*.jsonl'') [coll] fs)
      else if setting = ''base'' then
        Inr (concat (map (\<lambda>s. glob (s @ ''*.jsonl'') [coll] fs) [''train'', ''validation'', ''test'']))
      else if setting = ''large'' then Inr (glob ''*.jsonl'' [coll] fs)
      else Inl UnboundLocalError)"

text \<open>\<^verbatim>\<open>for p in paths: (dir / p.name).symlink_to(p, target_is_directory=False)\<close>\<close>

fun link_all :: "path \<Rightarrow> path list \<Rightarrow> fs \<Rightarrow> py_error + fs" where
  "link_all dir [] fs = Inr fs"
| "link_all dir (p # ps) fs = and_then (symlink_to (dir @ [last p]) p fs) (link_all dir ps)"

definition text_dir :: "string \<Rightarrow> string \<Rightarrow> path" where
  "text_dir setting pf = [''text-collection.'' @ setting @ pf]"

definition image_dir :: "string \<Rightarrow> string \<Rightarrow> path" where
  "image_dir setting pf = [''image-collection.'' @ setting @ pf]"

definition indexes :: path where
  "indexes = [''indexes'']"

definition text_indexing_args :: "env \<Rightarrow> string \<Rightarrow> string \<Rightarrow> string list" where
  "text_indexing_args env setting pf =
     [''-input'', str_resolved env (text_dir setting pf),
      ''-collection'', ''JsonCollection'',
      ''-index'', str_path env [''indexes'', ''lucene-index.atomic.text.flat.'' @ setting @ pf],
      ''-generator'', ''DefaultLuceneDocumentGenerator'',
      ''-threads'', ''8'', ''-storePositions'', ''-storeDocvectors'', ''-storeRaw'']"

definition image_indexing_args :: "env \<Rightarrow> string \<Rightarrow> string \<Rightarrow> string list" where
  "image_indexing_args env setting pf =
     [''-input'', str_resolved env (image_dir setting pf),
      ''-collection'', ''JsonCollection'',
      ''-index'', str_path env [''indexes'', ''lucene-index.atomic.image.flat.'' @ setting @ pf],
      ''-generator'', ''DefaultLuceneDocumentGenerator'',
      ''-threads'', ''8'', ''-storePositions'', ''-storeDocvectors'', ''-storeRaw'']"

definition run_indexer :: "env \<Rightarrow> string list \<Rightarrow> fs \<Rightarrow> py_error + fs" where
  "run_indexer env args fs =
     (case anserini_index env args fs of None \<Rightarrow> Inl JavaException | Some fs' \<Rightarrow> Inr fs')"

text \<open>The staging part of \<open>create_index\<close> (lines 69 to 95): both staging directories, the
  selection, the links, and the index directory.\<close>

definition stage :: "string \<Rightarrow> string option \<Rightarrow> string \<Rightarrow> fs \<Rightarrow> py_error + fs" where
  "stage setting split pf fs =
     and_then (mkdir_exist_ok (text_dir setting pf) fs) (\<lambda>fs1.
     and_then (mkdir_exist_ok (image_dir setting pf) fs1) (\<lambda>fs2.
     and_then (jsonl_paths setting split ''text-collection'' fs2) (\<lambda>text_jsonl_paths.
     and_then (jsonl_paths setting split ''image-collection'' fs2) (\<lambda>image_jsonl_paths.
     and_then (link_all (text_dir setting pf) text_jsonl_paths fs2) (\<lambda>fs3.
     and_then (link_all (image_dir setting pf) image_jsonl_paths fs3) (\<lambda>fs4.
     mkdir_exist_ok indexes fs4))))))"

definition create_index :: "env \<Rightarrow> string \<Rightarrow> string option \<Rightarrow> fs \<Rightarrow> py_error + fs" where
  "create_index env setting split fs =
     (if setting = ''small'' \<and> falsy split then Inl UsageError
      else
        and_then (postfix setting split) (\<lambda>pf.
        and_then (stage setting split pf fs) (\<lambda>fs5.
        and_then (run_indexer env (text_indexing_args env setting pf) fs5) (\<lambda>fs6.
        run_indexer env (image_indexing_args env setting pf) fs6))))"


section \<open>The json module\<close>

text \<open>\<^verbatim>\<open>json.loads\<close> on a \<open>str\<close>, as the decoder of the Python library reads it:
  a scanner for strings and numbers, the tokens, and a parser over the tokens. The decoder
  reads the text once from left to right and stops at the first thing that goes wrong: a
  text that is not JSON (\<open>JSONDecodeError\<close>), an integer literal with more digits than
  \<^verbatim>\<open>int\<close> converts (\<open>ValueError\<close>), or a container nested deeper than the interpreter
  lets the decoder recurse (\<open>RecursionError\<close>).\<close>

text \<open>What the \<^verbatim>\<open>json\<close> module takes from the interpreter that runs it:
  \<^item> \<open>float_repr\<close>: \<^verbatim>\<open>float.__repr__\<close> after \<^verbatim>\<open>float\<close>, from the literal to the printed text;
  \<^item> \<open>max_str_digits\<close>: \<^verbatim>\<open>sys.get_int_max_str_digits()\<close>, 4300 unless the interpreter was
    started otherwise, and 0 for no limit;
  \<^item> \<open>max_depth\<close>: how many containers inside one another the scanner and the encoder may
    enter before \<^verbatim>\<open>Py_EnterRecursiveCall\<close> refuses. It is what the recursion limit leaves
    at the frame of \<open>process_jsonl_line\<close>, and the same number for both: \<^verbatim>\<open>json.loads\<close>
    and \<^verbatim>\<open>json.dumps\<close> are called from that frame, each reaches its C object through three
    Python frames, and each enters one level per array or object.\<close>

record interpreter =
  float_repr :: "pystr \<Rightarrow> pystr"
  max_str_digits :: nat
  max_depth :: nat

text \<open>The test of \<^verbatim>\<open>int(str)\<close> and of \<^verbatim>\<open>str(int)\<close> on the number of decimal digits, the
  sign not counted; up to 640 digits are always converted.\<close>

definition exceeds_max_str_digits :: "interpreter \<Rightarrow> nat \<Rightarrow> bool" where
  "exceeds_max_str_digits py n = (640 < n \<and> 0 < max_str_digits py \<and> max_str_digits py < n)"

definition ustr :: "string \<Rightarrow> pystr" where
  "ustr s = map of_char s"

datatype json =
    JNull
  | JBool bool
  | JInt int
  | JFloat pystr
  | JStr pystr
  | JArr "json list"
  | JObj "(pystr \<times> json) list"

text \<open>A token is a delimiter, a string, float or constant with its value, an integer
  literal as it is written (it is converted when the parser takes it as a value), or the
  place where the text stops being JSON.\<close>

datatype token =
    LBrace | RBrace | LBracket | RBracket | Comma | Colon
  | Scalar json
  | IntLit pystr
  | Bad

definition is_ws :: "nat \<Rightarrow> bool" where
  "is_ws c = (c = 0x20 \<or> c = 0x09 \<or> c = 0x0A \<or> c = 0x0D)"

definition is_digit :: "nat \<Rightarrow> bool" where
  "is_digit c = (0x30 \<le> c \<and> c \<le> 0x39)"

definition hex_value :: "nat \<Rightarrow> nat option" where
  "hex_value c =
     (if 0x30 \<le> c \<and> c \<le> 0x39 then Some (c - 0x30)
      else if 0x41 \<le> c \<and> c \<le> 0x46 then Some (c - 0x41 + 10)
      else if 0x61 \<le> c \<and> c \<le> 0x66 then Some (c - 0x61 + 10)
      else None)"

text \<open>Four hexadecimal digits, as \<^verbatim>\<open>_decode_uXXXX\<close> reads them.\<close>

definition hex4 :: "pystr \<Rightarrow> nat option" where
  "hex4 ds =
     (if length ds = 4
      then foldl (\<lambda>acc d. case (acc, hex_value d) of
                            (Some n, Some v) \<Rightarrow> Some (16 * n + v)
                          | _ \<Rightarrow> None) (Some 0) ds
      else None)"

definition unescape :: "nat \<Rightarrow> nat option" where
  "unescape e =
     (if e = 0x22 then Some 0x22
      else if e = 0x5C then Some 0x5C
      else if e = 0x2F then Some 0x2F
      else if e = 0x62 then Some 0x08
      else if e = 0x66 then Some 0x0C
      else if e = 0x6E then Some 0x0A
      else if e = 0x72 then Some 0x0D
      else if e = 0x74 then Some 0x09
      else None)"

text \<open>The text after \<^verbatim>\<open>\u\<close>: one code point, or a surrogate pair written as two
  escapes, which is joined.\<close>

definition scan_u :: "pystr \<Rightarrow> (nat \<times> pystr) option" where
  "scan_u r =
     (case hex4 (take 4 r) of
        None \<Rightarrow> None
      | Some u \<Rightarrow>
          (let r1 = drop 4 r in
           if 0xD800 \<le> u \<and> u \<le> 0xDBFF \<and> take 2 r1 = [0x5C, 0x75] then
             (case hex4 (take 4 (drop 2 r1)) of
                None \<Rightarrow> None
              | Some u2 \<Rightarrow>
                  if 0xDC00 \<le> u2 \<and> u2 \<le> 0xDFFF
                  then Some (0x10000 + (u - 0xD800) * 0x400 + (u2 - 0xDC00), drop 6 r1)
                  else Some (u, r1))
           else Some (u, r1)))"

text \<open>The text after a backslash.\<close>

definition scan_escape :: "pystr \<Rightarrow> (nat \<times> pystr) option" where
  "scan_escape cs =
     (case cs of
        [] \<Rightarrow> None
      | e # es \<Rightarrow>
          if e = 0x75 then scan_u es
          else (case unescape e of None \<Rightarrow> None | Some ch \<Rightarrow> Some (ch, es)))"

lemma scan_u_shorter: "scan_u r = Some (u, r') \<Longrightarrow> length r' < length r"
proof -
  assume a: "scan_u r = Some (u, r')"
  then obtain v where v: "hex4 (take 4 r) = Some v"
    by (auto simp: scan_u_def split: option.splits)
  then have "length (take 4 r) = 4"
    by (simp add: hex4_def split: if_splits)
  then have "4 \<le> length r" by simp
  moreover from a v have "r' = drop 4 r \<or> r' = drop 6 (drop 4 r)"
    by (auto simp: scan_u_def Let_def split: option.splits if_splits)
  ultimately show ?thesis by auto
qed

lemma scan_escape_shorter: "scan_escape cs = Some (u, r) \<Longrightarrow> length r < length cs"
  by (cases cs) (auto simp: scan_escape_def split: if_splits option.splits dest: scan_u_shorter)

text \<open>\<^verbatim>\<open>scanstring\<close> in strict mode, after the opening quote: the decoded text and what
  follows the closing quote.\<close>

function scan_string :: "pystr \<Rightarrow> pystr \<Rightarrow> (pystr \<times> pystr) option" where
  "scan_string acc [] = None"
| "scan_string acc (c # cs) =
     (if c = 0x22 then Some (rev acc, cs)
      else if c = 0x5C then
        (case scan_escape cs of
           None \<Rightarrow> None
         | Some (ch, r) \<Rightarrow> scan_string (ch # acc) r)
      else if c < 0x20 then None
      else scan_string (c # acc) cs)"
  by pat_completeness auto
termination
  by (relation "measure (\<lambda>(acc, cs). length cs)") (auto dest: scan_escape_shorter)

lemma scan_string_shorter: "scan_string acc cs = Some (s, r) \<Longrightarrow> length r < length cs"
proof (induction acc cs rule: scan_string.induct)
  case (1 acc)
  then show ?case by simp
next
  case (2 acc c cs)
  show ?case
  proof (cases "c = 0x22")
    case True
    with 2 show ?thesis by simp
  next
    case q: False
    show ?thesis
    proof (cases "c = 0x5C")
      case True
      with q 2(3) obtain ch r0 where e: "scan_escape cs = Some (ch, r0)"
        and s: "scan_string (ch # acc) r0 = Some (s, r)"
        by (auto split: option.splits)
      from 2(1) [OF q True e refl s] scan_escape_shorter [OF e] show ?thesis by simp
    next
      case False
      with q 2(3) have c: "\<not> c < 0x20" and s: "scan_string (c # acc) cs = Some (s, r)"
        by (auto split: if_splits)
      from 2(2) [OF q False c s] show ?thesis by simp
    qed
  qed
qed

text \<open>The value of a run of decimal digits.\<close>

definition digits_value :: "pystr \<Rightarrow> nat" where
  "digits_value ds = foldl (\<lambda>n d. 10 * n + (d - 0x30)) 0 ds"

text \<open>\<^verbatim>\<open>NUMBER_RE = (-?(?:0|[1-9]\d*))(\.\d+)?([eE][-+]?\d+)?\<close>, matched at the head of
  the text: the three groups and the rest.\<close>

definition scan_int :: "pystr \<Rightarrow> (pystr \<times> pystr) option" where
  "scan_int cs =
     (let (sign, r) = (case cs of c # r \<Rightarrow> if c = 0x2D then ([c], r) else ([], cs) | [] \<Rightarrow> ([], cs))
      in case r of
           [] \<Rightarrow> None
         | d # r' \<Rightarrow>
             if d = 0x30 then Some (sign @ [d], r')
             else if is_digit d then Some (sign @ takeWhile is_digit r, dropWhile is_digit r)
             else None)"

definition scan_frac :: "pystr \<Rightarrow> pystr \<times> pystr" where
  "scan_frac cs =
     (case cs of
        c # d # r \<Rightarrow>
          if c = 0x2E \<and> is_digit d
          then (c # takeWhile is_digit (d # r), dropWhile is_digit (d # r))
          else ([], cs)
      | _ \<Rightarrow> ([], cs))"

definition scan_exp :: "pystr \<Rightarrow> pystr \<times> pystr" where
  "scan_exp cs =
     (case cs of
        e # r \<Rightarrow>
          if e = 0x65 \<or> e = 0x45 then
            (let (sign, r') =
               (case r of s # t \<Rightarrow> if s = 0x2D \<or> s = 0x2B then ([s], t) else ([], r) | [] \<Rightarrow> ([], r))
             in case r' of
                  d # _ \<Rightarrow>
                    if is_digit d
                    then (e # sign @ takeWhile is_digit r', dropWhile is_digit r')
                    else ([], cs)
                | [] \<Rightarrow> ([], cs))
          else ([], cs)
      | [] \<Rightarrow> ([], cs))"

text \<open>An integer literal becomes a Python \<open>int\<close>; a literal with a fraction or an exponent
  becomes a \<open>float\<close>, kept as its text.\<close>

definition literal_digits :: "pystr \<Rightarrow> nat" where
  "literal_digits l =
     (case l of c # ds \<Rightarrow> if c = 0x2D then length ds else length l | [] \<Rightarrow> 0)"

definition int_of_literal :: "pystr \<Rightarrow> int" where
  "int_of_literal l =
     (case l of
        c # ds \<Rightarrow> if c = 0x2D then - int (digits_value ds) else int (digits_value l)
      | [] \<Rightarrow> 0)"

definition scan_number :: "pystr \<Rightarrow> (token \<times> pystr) option" where
  "scan_number cs =
     (case scan_int cs of
        None \<Rightarrow> None
      | Some (i, r) \<Rightarrow>
          (let (f, r1) = scan_frac r; (e, r2) = scan_exp r1
           in if f = [] \<and> e = [] then Some (IntLit i, r2)
              else Some (Scalar (JFloat (i @ f @ e)), r2)))"

definition starts_with :: "pystr \<Rightarrow> pystr \<Rightarrow> bool" where
  "starts_with lit cs = (take (length lit) cs = lit)"

text \<open>The constants of \<^verbatim>\<open>scan_once\<close>, in its order.\<close>

definition scan_constant :: "pystr \<Rightarrow> (token \<times> pystr) option" where
  "scan_constant cs =
     (if starts_with (ustr ''null'') cs then Some (Scalar JNull, drop 4 cs)
      else if starts_with (ustr ''true'') cs then Some (Scalar (JBool True), drop 4 cs)
      else if starts_with (ustr ''false'') cs then Some (Scalar (JBool False), drop 5 cs)
      else case scan_number cs of
        Some r \<Rightarrow> Some r
      | None \<Rightarrow>
          if starts_with (ustr ''NaN'') cs then Some (Scalar (JFloat (ustr ''NaN'')), drop 3 cs)
          else if starts_with (ustr ''Infinity'') cs
          then Some (Scalar (JFloat (ustr ''Infinity'')), drop 8 cs)
          else if starts_with (ustr ''-Infinity'') cs
          then Some (Scalar (JFloat (ustr ''-Infinity'')), drop 9 cs)
          else None)"

lemma scan_int_shorter: "scan_int cs = Some (i, r) \<Longrightarrow> length r < length cs"
proof -
  assume a: "scan_int cs = Some (i, r)"
  have d: "length (dropWhile is_digit (x # xs)) < Suc (length (x # xs))" for x xs
    using length_dropWhile_le [of is_digit "x # xs"] by simp
  have d': "is_digit x \<Longrightarrow> length (dropWhile is_digit (x # xs)) < length (x # xs)" for x xs
    using length_dropWhile_le [of is_digit xs] by simp
  from a show ?thesis
    using d d'
    by (cases cs) (auto simp: scan_int_def split: list.splits if_splits simp del: dropWhile.simps)
qed


lemma scan_frac_shorter: "scan_frac cs = (f, r) \<Longrightarrow> length r \<le> length cs"
proof -
  assume a: "scan_frac cs = (f, r)"
  have d: "length (dropWhile is_digit xs) \<le> Suc (length xs)" for xs
    using length_dropWhile_le [of is_digit xs] by simp
  from a show ?thesis
    using d
    by (auto simp: scan_frac_def split: list.splits if_splits simp del: dropWhile.simps)
      (metis Suc_le_mono d le_SucI length_Cons length_dropWhile_le)+
qed


lemma scan_exp_shorter: "scan_exp cs = (e, r) \<Longrightarrow> length r \<le> length cs"
proof -
  assume a: "scan_exp cs = (e, r)"
  have d: "length (dropWhile is_digit xs) \<le> length xs" for xs
    by (rule length_dropWhile_le)
  have d1: "length (dropWhile is_digit xs) \<le> Suc (length xs)" for xs
    using d [of xs] by simp
  have d2: "length (dropWhile is_digit xs) \<le> Suc (Suc (length xs))" for xs
    using d [of xs] by simp
  from a consider "r = cs" | x where "cs = x # r" | x xs where "cs = x # xs" "r = dropWhile is_digit xs"
    | x y xs where "cs = x # y # xs" "r = dropWhile is_digit xs"
    by (auto simp: scan_exp_def Let_def split: list.splits if_splits simp del: dropWhile.simps)
  then show ?thesis
    using d1 d2 by cases auto
qed

lemma scan_number_shorter: "scan_number cs = Some (v, r) \<Longrightarrow> length r < length cs"
proof -
  assume a: "scan_number cs = Some (v, r)"
  then obtain i r0 f r1 e where
    "scan_int cs = Some (i, r0)" "scan_frac r0 = (f, r1)" "scan_exp r1 = (e, r)"
    by (auto simp: scan_number_def Let_def split: option.splits prod.splits if_splits)
  then show ?thesis
    using scan_int_shorter [of cs i r0] scan_frac_shorter [of r0 f r1] scan_exp_shorter [of r1 e r]
    by simp
qed

lemma starts_with_nonempty: "starts_with lit cs \<Longrightarrow> lit \<noteq> [] \<Longrightarrow> cs \<noteq> []"
  by (auto simp: starts_with_def)

lemma scan_constant_shorter: "scan_constant cs = Some (v, r) \<Longrightarrow> length r < length cs"
proof -
  assume a: "scan_constant cs = Some (v, r)"
  have ne: "ustr ''null'' \<noteq> []" "ustr ''true'' \<noteq> []" "ustr ''false'' \<noteq> []"
    "ustr ''NaN'' \<noteq> []" "ustr ''Infinity'' \<noteq> []" "ustr ''-Infinity'' \<noteq> []"
    by (simp_all add: ustr_def)
  from a consider "scan_number cs = Some (v, r)" | k where "cs \<noteq> []" "r = drop (Suc k) cs"
    unfolding scan_constant_def
    by (auto split: if_splits option.splits dest: starts_with_nonempty [OF _ ne(1)]
        starts_with_nonempty [OF _ ne(2)] starts_with_nonempty [OF _ ne(3)]
        starts_with_nonempty [OF _ ne(4)] starts_with_nonempty [OF _ ne(5)]
        starts_with_nonempty [OF _ ne(6)] simp: numeral_eq_Suc simp del: drop_Suc_Cons)
  then show ?thesis
    by cases (auto dest: scan_number_shorter)
qed

text \<open>The tokens of a JSON text, up to the place where it stops being JSON. White space
  between them is skipped, as \<^verbatim>\<open>WHITESPACE.match\<close> does before and after every value and
  delimiter.\<close>

function tokens :: "pystr \<Rightarrow> token list" where
  "tokens [] = []"
| "tokens (c # cs) =
     (if is_ws c then tokens cs
      else if c = 0x7B then LBrace # tokens cs
      else if c = 0x7D then RBrace # tokens cs
      else if c = 0x5B then LBracket # tokens cs
      else if c = 0x5D then RBracket # tokens cs
      else if c = 0x2C then Comma # tokens cs
      else if c = 0x3A then Colon # tokens cs
      else if c = 0x22 then
        (case scan_string [] cs of
           None \<Rightarrow> [Bad]
         | Some (s, r) \<Rightarrow> Scalar (JStr s) # tokens r)
      else
        (case scan_constant (c # cs) of
           None \<Rightarrow> [Bad]
         | Some (t, r) \<Rightarrow> t # tokens r))"
  by pat_completeness auto
termination
  by (relation "measure length")
    (auto dest: scan_string_shorter scan_constant_shorter intro: less_SucI)

text \<open>A Python \<open>dict\<close> in insertion order: a key bound again keeps its place and takes the
  new value.\<close>

fun dict_set :: "(pystr \<times> json) list \<Rightarrow> pystr \<Rightarrow> json \<Rightarrow> (pystr \<times> json) list" where
  "dict_set [] k v = [(k, v)]"
| "dict_set ((k', v') # kvs) k v =
     (if k' = k then (k, v) # kvs else (k', v') # dict_set kvs k v)"

text \<open>The parser works through the tokens with a stack of the open containers: an array
  with its items so far (last first), or an object with its pairs so far and, once a key
  is read, that key.\<close>

datatype frame = InArray "json list" | InObject "(pystr \<times> json) list" "pystr option"

datatype expect =
    Value \<comment> \<open>a value must follow\<close>
  | FirstItem \<comment> \<open>after \<^verbatim>\<open>[\<close>: a value or \<^verbatim>\<open>]\<close>\<close>
  | FirstKey \<comment> \<open>after \<^verbatim>\<open>{\<close>: a key or \<^verbatim>\<open>}\<close>\<close>
  | Key \<comment> \<open>after a comma in an object\<close>
  | KeyColon \<comment> \<open>after a key\<close>
  | Done json \<comment> \<open>a value is complete\<close>

text \<open>A value begins. An integer literal is converted here, and an array or an object
  is entered here: \<^verbatim>\<open>scan_once\<close> calls \<^verbatim>\<open>Py_EnterRecursiveCall\<close> before it reads what
  the container holds. The stack holds the containers already entered.\<close>

fun open_value :: "interpreter \<Rightarrow> token \<Rightarrow> frame list \<Rightarrow> py_error + (expect \<times> frame list)" where
  "open_value py (Scalar v) st = Inr (Done v, st)"
| "open_value py (IntLit l) st =
     (if exceeds_max_str_digits py (literal_digits l) then Inl ValueError
      else Inr (Done (JInt (int_of_literal l)), st))"
| "open_value py LBracket st =
     (if max_depth py \<le> length st then Inl RecursionError
      else Inr (FirstItem, InArray [] # st))"
| "open_value py LBrace st =
     (if max_depth py \<le> length st then Inl RecursionError
      else Inr (FirstKey, InObject [] None # st))"
| "open_value py _ st = Inl JSONDecodeError"

fun read_key :: "token \<Rightarrow> frame list \<Rightarrow> py_error + (expect \<times> frame list)" where
  "read_key (Scalar (JStr k)) (InObject kvs None # st) = Inr (KeyColon, InObject kvs (Some k) # st)"
| "read_key _ st = Inl JSONDecodeError"

fun step :: "interpreter \<Rightarrow> expect \<Rightarrow> frame list \<Rightarrow> token \<Rightarrow> py_error + (expect \<times> frame list)" where
  "step py Value st t = open_value py t st"
| "step py FirstItem (InArray items # st) RBracket = Inr (Done (JArr (rev items)), st)"
| "step py FirstItem st t = open_value py t st"
| "step py FirstKey (InObject kvs None # st) RBrace = Inr (Done (JObj kvs), st)"
| "step py FirstKey st t = read_key t st"
| "step py Key st t = read_key t st"
| "step py KeyColon st Colon = Inr (Value, st)"
| "step py KeyColon st t = Inl JSONDecodeError"
| "step py (Done v) (InArray items # st) Comma = Inr (Value, InArray (v # items) # st)"
| "step py (Done v) (InArray items # st) RBracket = Inr (Done (JArr (rev (v # items))), st)"
| "step py (Done v) (InObject kvs (Some k) # st) Comma = Inr (Key, InObject (dict_set kvs k v) None # st)"
| "step py (Done v) (InObject kvs (Some k) # st) RBrace = Inr (Done (JObj (dict_set kvs k v)), st)"
| "step py (Done v) st t = Inl JSONDecodeError"

fun parse :: "interpreter \<Rightarrow> expect \<Rightarrow> frame list \<Rightarrow> token list \<Rightarrow> py_error + json" where
  "parse py (Done v) [] [] = Inr v"
| "parse py e st [] = Inl JSONDecodeError"
| "parse py e st (t # ts) =
     (case step py e st t of Inl err \<Rightarrow> Inl err | Inr (e', st') \<Rightarrow> parse py e' st' ts)"

definition json_loads :: "interpreter \<Rightarrow> pystr \<Rightarrow> py_error + json" where
  "json_loads py s = parse py Value [] (tokens s)"

text \<open>\<^verbatim>\<open>str(int)\<close>: the decimal digits.\<close>

fun nat_digits :: "nat \<Rightarrow> pystr" where
  "nat_digits n = (if n < 10 then [0x30 + n] else nat_digits (n div 10) @ [0x30 + n mod 10])"

declare nat_digits.simps [simp del]

definition str_int :: "int \<Rightarrow> pystr" where
  "str_int i = (if i < 0 then 0x2D # nat_digits (nat (- i)) else nat_digits (nat i))"

definition hex_digit :: "nat \<Rightarrow> nat" where
  "hex_digit n = (if n < 10 then 0x30 + n else 0x61 + (n - 10))"

text \<open>\<^verbatim>\<open>'\\u{0:04x}'.format(n)\<close>\<close>

definition u_escape :: "nat \<Rightarrow> pystr" where
  "u_escape n =
     [0x5C, 0x75, hex_digit (n div 4096 mod 16), hex_digit (n div 256 mod 16),
      hex_digit (n div 16 mod 16), hex_digit (n mod 16)]"

text \<open>One character of a string under \<^verbatim>\<open>ensure_ascii\<close>: everything outside the
  printable ASCII range is escaped, a code point beyond the basic plane as a surrogate
  pair.\<close>

definition escape_char :: "nat \<Rightarrow> pystr" where
  "escape_char c =
     (if c = 0x22 then [0x5C, 0x22]
      else if c = 0x5C then [0x5C, 0x5C]
      else if c = 0x0A then [0x5C, 0x6E]
      else if c = 0x0D then [0x5C, 0x72]
      else if c = 0x09 then [0x5C, 0x74]
      else if c = 0x08 then [0x5C, 0x62]
      else if c = 0x0C then [0x5C, 0x66]
      else if 0x20 \<le> c \<and> c \<le> 0x7E then [c]
      else if c < 0x10000 then u_escape c
      else u_escape (0xD800 + ((c - 0x10000) div 0x400) mod 0x400) @
           u_escape (0xDC00 + (c - 0x10000) mod 0x400))"

definition encode_string :: "pystr \<Rightarrow> pystr" where
  "encode_string s = 0x22 # concat (map escape_char s) @ [0x22]"

text \<open>\<^verbatim>\<open>sep.join(parts)\<close>\<close>

fun join :: "pystr \<Rightarrow> pystr list \<Rightarrow> pystr" where
  "join sep [] = []"
| "join sep [x] = x"
| "join sep (x # y # ys) = x @ sep @ join sep (y # ys)"

text \<open>The results of a run of steps, or the first exception among them.\<close>

fun sequence :: "(py_error + 'a) list \<Rightarrow> py_error + 'a list" where
  "sequence [] = Inr []"
| "sequence (Inl e # rs) = Inl e"
| "sequence (Inr x # rs) = (case sequence rs of Inl e \<Rightarrow> Inl e | Inr xs \<Rightarrow> Inr (x # xs))"

text \<open>The number of decimal digits of an \<^verbatim>\<open>int\<close>.\<close>

definition int_digits :: "int \<Rightarrow> nat" where
  "int_digits i = length (nat_digits (nat \<bar>i\<bar>))"

text \<open>\<^verbatim>\<open>json.dumps\<close> with its defaults (\<^verbatim>\<open>ensure_ascii\<close>, separators \<^verbatim>\<open>", "\<close> and
  \<^verbatim>\<open>": "\<close>), inside \<open>depth\<close> containers. The encoder writes the items of a container in
  their order and stops at the first that raises: \<^verbatim>\<open>int.__repr__\<close> on more digits than
  the limit, or a container beyond the depth that the interpreter allows.\<close>

fun json_dumps_at :: "interpreter \<Rightarrow> nat \<Rightarrow> json \<Rightarrow> py_error + pystr" where
  "json_dumps_at py depth JNull = Inr (ustr ''null'')"
| "json_dumps_at py depth (JBool b) = Inr (if b then ustr ''true'' else ustr ''false'')"
| "json_dumps_at py depth (JInt i) =
     (if exceeds_max_str_digits py (int_digits i) then Inl ValueError else Inr (str_int i))"
| "json_dumps_at py depth (JFloat l) = Inr (float_repr py l)"
| "json_dumps_at py depth (JStr s) = Inr (encode_string s)"
| "json_dumps_at py depth (JArr xs) =
     (if max_depth py \<le> depth then Inl RecursionError
      else case sequence (map (json_dumps_at py (Suc depth)) xs) of
             Inl e \<Rightarrow> Inl e
           | Inr parts \<Rightarrow> Inr (ustr ''['' @ join (ustr '', '') parts @ ustr '']''))"
| "json_dumps_at py depth (JObj kvs) =
     (if max_depth py \<le> depth then Inl RecursionError
      else case sequence
                  (map (\<lambda>kv. case json_dumps_at py (Suc depth) (snd kv) of
                                Inl e \<Rightarrow> Inl e
                              | Inr s \<Rightarrow> Inr (encode_string (fst kv) @ ustr '': '' @ s)) kvs) of
             Inl e \<Rightarrow> Inl e
           | Inr parts \<Rightarrow> Inr (ustr ''{'' @ join (ustr '', '') parts @ ustr ''}''))"

definition json_dumps :: "interpreter \<Rightarrow> json \<Rightarrow> py_error + pystr" where
  "json_dumps py v = json_dumps_at py 0 v"

section \<open>process_jsonl_line\<close>

text \<open>\<^verbatim>\<open>obj[key]\<close> with a string key.\<close>

fun getitem :: "json \<Rightarrow> pystr \<Rightarrow> py_error + json" where
  "getitem (JObj kvs) k = (case map_of kvs k of None \<Rightarrow> Inl (KeyError k) | Some v \<Rightarrow> Inr v)"
| "getitem _ k = Inl TypeError"

definition process_jsonl_line :: "interpreter \<Rightarrow> pystr \<Rightarrow> py_error + pystr" where
  "process_jsonl_line py line =
     and_then (json_loads py line) (\<lambda>obj.
     and_then (getitem obj (ustr ''id'')) (\<lambda>i.
     and_then (getitem obj (ustr ''contents'')) (\<lambda>c.
     json_dumps py (JObj [(ustr ''id'', i), (ustr ''title'', c)]))))"

section \<open>Values within the limits of the interpreter\<close>





text \<open>An integer literal as \<^verbatim>\<open>NUMBER_RE\<close> matches it: an optional sign, then a single
  \<^verbatim>\<open>0\<close> or digits that do not begin with \<^verbatim>\<open>0\<close>.\<close>

definition canonical_digits :: "pystr \<Rightarrow> bool" where
  "canonical_digits ds = (ds \<noteq> [] \<and> (\<forall>d \<in> set ds. is_digit d) \<and> (hd ds = 0x30 \<longrightarrow> ds = [0x30]))"

definition canonical_literal :: "pystr \<Rightarrow> bool" where
  "canonical_literal l =
     (case l of c # ds \<Rightarrow> if c = 0x2D then canonical_digits ds else canonical_digits l
              | [] \<Rightarrow> False)"

text \<open>The tokens that the scanner makes: a scalar token holds no container and no
  integer.\<close>

fun token_ok :: "token \<Rightarrow> bool" where
  "token_ok (Scalar (JArr xs)) = False"
| "token_ok (Scalar (JObj kvs)) = False"
| "token_ok (Scalar (JInt i)) = False"
| "token_ok (IntLit l) = canonical_literal l"
| "token_ok t = True"

text \<open>The length of the text that a token was read from, for an integer literal.\<close>

fun token_length :: "token \<Rightarrow> nat" where
  "token_length (IntLit l) = length l"
| "token_length t = 0"

section \<open>Files and their contents\<close>

text \<open>The directory tree together with the text of the regular files. Opening a path
  follows symbolic links, at most 40 of them in a row as the kernel does.\<close>

record disk =
  tree :: fs
  data :: "path \<Rightarrow> pystr"

fun follow :: "nat \<Rightarrow> fs \<Rightarrow> path \<Rightarrow> py_error + path" where
  "follow 0 t p = (case map_of t p of Some (Symlink q) \<Rightarrow> Inl OSError | _ \<Rightarrow> Inr p)"
| "follow (Suc n) t p = (case map_of t p of Some (Symlink q) \<Rightarrow> follow n t q | _ \<Rightarrow> Inr p)"

text \<open>\<^verbatim>\<open>open(p, "r")\<close>: the file that the path names.\<close>

definition open_read :: "path \<Rightarrow> disk \<Rightarrow> py_error + path" where
  "open_read p d =
     and_then (follow 40 (tree d) p) (\<lambda>q.
       case map_of (tree d) q of
         Some RegularFile \<Rightarrow> Inr q
       | Some Directory \<Rightarrow> Inl IsADirectoryError
       | _ \<Rightarrow> Inl FileNotFoundError)"

text \<open>\<^verbatim>\<open>open(p, "w")\<close>: the file is created in an existing directory or emptied.\<close>

definition open_write :: "path \<Rightarrow> disk \<Rightarrow> py_error + path \<times> disk" where
  "open_write p d =
     and_then (follow 40 (tree d) p) (\<lambda>q.
       case map_of (tree d) q of
         Some RegularFile \<Rightarrow> Inr (q, d\<lparr>data := (data d)(q := [])\<rparr>)
       | Some Directory \<Rightarrow> Inl IsADirectoryError
       | Some (Symlink _) \<Rightarrow> Inl OSError
       | None \<Rightarrow>
           (case map_of (tree d) (butlast q) of
              Some Directory \<Rightarrow>
                Inr (q, d\<lparr>tree := tree d @ [(q, RegularFile)], data := (data d)(q := [])\<rparr>)
            | Some _ \<Rightarrow> Inl NotADirectoryError
            | None \<Rightarrow> Inl FileNotFoundError))"

text \<open>\<^verbatim>\<open>f.write(s)\<close> on an open file.\<close>

definition write_text :: "path \<Rightarrow> pystr \<Rightarrow> disk \<Rightarrow> disk" where
  "write_text f s d = d\<lparr>data := (data d)(f := data d f @ s)\<rparr>"

text \<open>Reading a text file line by line: \<^verbatim>\<open>\r\n\<close> and \<^verbatim>\<open>\r\<close> are read as \<^verbatim>\<open>\n\<close>, and a
  line ends after each \<^verbatim>\<open>\n\<close>.\<close>

fun universal_newlines :: "pystr \<Rightarrow> pystr" where
  "universal_newlines [] = []"
| "universal_newlines [c] = [if c = 0x0D then 0x0A else c]"
| "universal_newlines (c # d # cs) =
     (if c = 0x0D \<and> d = 0x0A then 0x0A # universal_newlines cs
      else if c = 0x0D then 0x0A # universal_newlines (d # cs)
      else c # universal_newlines (d # cs))"

fun split_lines :: "pystr \<Rightarrow> pystr \<Rightarrow> pystr list" where
  "split_lines cur [] = (if cur = [] then [] else [rev cur])"
| "split_lines cur (c # cs) =
     (if c = 0x0A then rev (c # cur) # split_lines [] cs else split_lines (c # cur) cs)"

definition file_lines :: "pystr \<Rightarrow> pystr list" where
  "file_lines content = split_lines [] (universal_newlines content)"

section \<open>The worker pool\<close>

text \<open>\<^verbatim>\<open>Pool.map\<close> cuts the input into chunks, hands them to the workers, and puts each
  chunk's results at the chunk's place in the list of results as the chunk comes back.\<close>

definition chunksize :: "nat \<Rightarrow> nat \<Rightarrow> nat" where
  "chunksize processes len =
     (if len = 0 then 0
      else if len mod (processes * 4) \<noteq> 0 then len div (processes * 4) + 1
      else len div (processes * 4))"

fun get_tasks :: "nat \<Rightarrow> 'a list \<Rightarrow> 'a list list" where
  "get_tasks sz xs =
     (if sz = 0 \<or> xs = [] then [] else take sz xs # get_tasks sz (drop sz xs))"

declare get_tasks.simps [simp del]

text \<open>\<^verbatim>\<open>mapstar\<close>: one chunk in a worker; the first exception ends it.\<close>

fun mapstar :: "('a \<Rightarrow> py_error + 'b) \<Rightarrow> 'a list \<Rightarrow> py_error + 'b list" where
  "mapstar f [] = Inr []"
| "mapstar f (x # xs) =
     and_then (f x) (\<lambda>y. and_then (mapstar f xs) (\<lambda>ys. Inr (y # ys)))"

text \<open>\<^verbatim>\<open>MapResult\<close>: the list of results, \<open>None\<close> where nothing has arrived, and the
  first exception that came back.\<close>

record 'b map_result =
  slots :: "'b option list"
  failure :: "py_error option"

text \<open>\<^verbatim>\<open>MapResult._set(i, (success, result))\<close>: a successful chunk is stored by slice
  assignment unless an exception came before; of the exceptions the first is kept.\<close>

definition set_chunk :: "nat \<Rightarrow> nat \<Rightarrow> py_error + 'b list \<Rightarrow> 'b map_result \<Rightarrow> 'b map_result" where
  "set_chunk sz i result mr =
     (case failure mr of
        Some e \<Rightarrow> mr
      | None \<Rightarrow>
          (case result of
             Inl e \<Rightarrow> mr\<lparr>failure := Some e\<rparr>
           | Inr ys \<Rightarrow>
               mr\<lparr>slots := take (i * sz) (slots mr) @ map Some ys @
                             drop ((i + 1) * sz) (slots mr)\<rparr>))"

text \<open>The order in which the chunks come back is up to the workers. A list of numbers
  names any such order: the chunks it mentions, each once, and then those it leaves
  out.\<close>

definition completion_order :: "nat \<Rightarrow> nat list \<Rightarrow> nat list" where
  "completion_order n sched =
     remdups (filter (\<lambda>i. i < n) sched) @ filter (\<lambda>i. i \<notin> set sched) [0..<n]"

definition pool_map ::
  "nat \<Rightarrow> nat list \<Rightarrow> ('a \<Rightarrow> py_error + 'b) \<Rightarrow> 'a list \<Rightarrow> py_error + 'b option list" where
  "pool_map processes sched f xs =
     (let sz = chunksize processes (length xs);
          tasks = get_tasks sz xs;
          mr = foldl (\<lambda>mr i. set_chunk sz i (mapstar f (tasks ! i)) mr)
                 \<lparr>slots = replicate (length xs) None, failure = None\<rparr>
                 (completion_order (length tasks) sched)
      in case failure mr of Some e \<Rightarrow> Inl e | None \<Rightarrow> Inr (slots mr))"

section \<open>convert_jsonl_for_search\<close>

text \<open>\<^verbatim>\<open>for row in results: f_out.write(row + "\n")\<close>; a missing result is Python's
  \<open>None\<close>, which cannot be joined to a string.\<close>

fun write_rows :: "path \<Rightarrow> pystr option list \<Rightarrow> disk \<Rightarrow> py_error option \<times> disk" where
  "write_rows f [] d = (None, d)"
| "write_rows f (None # rows) d = (Some TypeError, d)"
| "write_rows f (Some row # rows) d = write_rows f rows (write_text f (row @ [0x0A]) d)"

text \<open>The function with the pool size and the order of completion as parameters. The
  result is the exception that ended the call, if any, and the disk it leaves. The input
  is read after the output is opened, as iteration over \<^verbatim>\<open>f_in\<close> starts inside
  \<^verbatim>\<open>pool.map\<close>; \<^verbatim>\<open>Pool(processes=n)\<close> refuses a size below one.\<close>

definition convert_with_pool ::
  "nat \<Rightarrow> nat list \<Rightarrow> interpreter \<Rightarrow> path \<Rightarrow> path \<Rightarrow> disk \<Rightarrow> py_error option \<times> disk" where
  "convert_with_pool processes sched py jsonl_file output_path d =
     (case open_read jsonl_file d of
        Inl e \<Rightarrow> (Some e, d)
      | Inr f_in \<Rightarrow>
          (case open_write output_path d of
             Inl e \<Rightarrow> (Some e, d)
           | Inr (f_out, d1) \<Rightarrow>
               if processes < 1 then (Some ValueError, d1)
               else
                 (case pool_map processes sched (process_jsonl_line py)
                         (file_lines (data d1 f_in)) of
                    Inl e \<Rightarrow> (Some e, d1)
                  | Inr results \<Rightarrow> write_rows f_out results d1)))"

definition convert_jsonl_for_search ::
  "nat list \<Rightarrow> interpreter \<Rightarrow> path \<Rightarrow> path \<Rightarrow> disk \<Rightarrow> py_error option \<times> disk" where
  "convert_jsonl_for_search = convert_with_pool 16"


section \<open>prep_qrels\<close>

text \<open>A dataset as \<^verbatim>\<open>load_dataset\<close> returns it: the column names in the dataset's order
  and the records, each giving the printed value of every column.\<close>

record dataset =
  column_names :: "string list"
  records :: "(string \<Rightarrow> pystr) list"

text \<open>One field as the \<^verbatim>\<open>csv\<close> writer prints it with the separator \<^verbatim>\<open>" "\<close> and minimal
  quoting: a field with a space, a quote or a line break is put in quotes, its quotes
  doubled.\<close>

definition csv_field :: "pystr \<Rightarrow> pystr" where
  "csv_field f =
     (if \<exists>c \<in> set f. c = 0x20 \<or> c = 0x22 \<or> c = 0x0A \<or> c = 0x0D
      then 0x22 # concat (map (\<lambda>c. if c = 0x22 then [0x22, 0x22] else [c]) f) @ [0x22]
      else f)"

definition csv_row :: "pystr list \<Rightarrow> pystr" where
  "csv_row cells =
     (if cells = [[]] then [0x22, 0x22] else join [0x20] (map csv_field cells)) @ [0x0A]"

text \<open>\<^verbatim>\<open>to_csv(columns=cols, header=None, sep=" ", index=False)\<close>: one line per record and
  no header; a column that the dataset does not have is a \<open>KeyError\<close>.\<close>

definition to_csv :: "string list \<Rightarrow> dataset \<Rightarrow> py_error + pystr" where
  "to_csv cols ds =
     (case find (\<lambda>c. c \<notin> set (column_names ds)) cols of
        Some c \<Rightarrow> Inl (KeyError (ustr c))
      | None \<Rightarrow> Inr (concat (map (\<lambda>r. csv_row (map r cols)) (records ds))))"

definition to_csv_file :: "path \<Rightarrow> string list \<Rightarrow> dataset \<Rightarrow> disk \<Rightarrow> py_error + disk" where
  "to_csv_file p cols ds d =
     and_then (open_write p d) (\<lambda>(f, d1).
     and_then (to_csv cols ds) (\<lambda>text. Inr (write_text f text d1)))"

text \<open>\<open>prep_qrels\<close>, with \<^verbatim>\<open>load_dataset\<close> as a parameter: the first file takes the
  dataset's own columns, the second the four columns that the call names.\<close>

definition prep_qrels ::
  "(string \<Rightarrow> string \<Rightarrow> py_error + dataset) \<Rightarrow> string \<Rightarrow> string \<Rightarrow> disk \<Rightarrow> py_error + disk" where
  "prep_qrels load_dataset qrels_ds split d =
     and_then (mkdir_exist_ok [''qrels''] (tree d)) (\<lambda>t.
     and_then (load_dataset qrels_ds split) (\<lambda>qrel_ds.
     and_then (to_csv_file [''qrels'', split @ ''.qrels.t2i.projected.trec'']
                 (column_names qrel_ds) qrel_ds (d\<lparr>tree := t\<rparr>)) (\<lambda>d1.
     to_csv_file [''qrels'', split @ ''.qrels.i2t.projected.trec'']
       [''image_id'', ''Q0'', ''text_id'', ''rel''] qrel_ds d1)))"

section \<open>Printable text\<close>

text \<open>Text of printable ASCII characters only: it holds no line break.\<close>

definition printable :: "pystr \<Rightarrow> bool" where
  "printable s = (\<forall>c \<in> set s. 0x20 \<le> c \<and> c \<le> 0x7E)"


text \<open>A field that the \<^verbatim>\<open>csv\<close> writer prints as it is.\<close>

definition plain_cell :: "pystr \<Rightarrow> bool" where
  "plain_cell f = (\<forall>c \<in> set f. c \<noteq> 0x20 \<and> c \<noteq> 0x22 \<and> c \<noteq> 0x0A \<and> c \<noteq> 0x0D)"



section \<open>A small output directory\<close>

text \<open>An output directory after the encoding stage, with four text shards and one image
  shard; an external interface whose indexer leaves the tree as it is; and the tree after
  \<open>create_index\<close> has run once for the small setting and the validation split.\<close>

definition demo_fs :: fs where
  "demo_fs =
     [([], Directory),
      ([''text-collection''], Directory),
      ([''text-collection'', ''train.text.jsonl''], RegularFile),
      ([''text-collection'', ''validation.text.jsonl''], RegularFile),
      ([''text-collection'', ''test.text.jsonl''], RegularFile),
      ([''text-collection'', ''other.text.jsonl''], RegularFile),
      ([''image-collection''], Directory),
      ([''image-collection'', ''validation.image-caption.jsonl''], RegularFile)]"

definition demo_env :: env where
  "demo_env = \<lparr>str_path = concat, str_resolved = concat, anserini_index = (\<lambda>args s. Some s)\<rparr>"

definition demo_staged :: fs where
  "demo_staged = demo_fs @
     [([''text-collection.small.validation''], Directory),
      ([''image-collection.small.validation''], Directory),
      ([''text-collection.small.validation'', ''validation.text.jsonl''],
         Symlink [''text-collection'', ''validation.text.jsonl'']),
      ([''image-collection.small.validation'', ''validation.image-caption.jsonl''],
         Symlink [''image-collection'', ''validation.image-caption.jsonl'']),
      ([''indexes''], Directory)]"


text \<open>An interpreter for the examples: its float printer prints the literal as it was
  read, the digit limit is the default of 4300, and the recursion limit leaves room for
  900 containers inside one another. The same interpreter with the digit limit switched
  off, as \<^verbatim>\<open>sys.set_int_max_str_digits(0)\<close> does. Two disks: on the first every line of
  the input can be transformed, on the second the last line lacks its \<^verbatim>\<open>contents\<close>. The
  output file holds a stale line on both.\<close>

definition demo_repr :: "pystr \<Rightarrow> pystr" where
  "demo_repr l = filter (\<lambda>c. 0x20 \<le> c \<and> c \<le> 0x7E) l"

definition demo_py :: interpreter where
  "demo_py = \<lparr>float_repr = demo_repr, max_str_digits = 4300, max_depth = 900\<rparr>"

definition demo_py_unlimited :: interpreter where
  "demo_py_unlimited = \<lparr>float_repr = demo_repr, max_str_digits = 0, max_depth = 900\<rparr>"


definition open_array_line :: pystr where
  "open_array_line = 0x5B # replicate 4301 0x39"

definition demo_disk :: disk where
  "demo_disk =
     \<lparr>tree = [([], Directory), ([''in.jsonl''], RegularFile), ([''out.jsonl''], RegularFile)],
      data = (\<lambda>p.
        if p = [''in.jsonl''] then
          ustr ''{\"id\": \"x1\", \"contents\": \"a caption\"}'' @ [0x0A] @
          ustr ''{\"id\": \"x2\", \"contents\": \"b\"}'' @ [0x0A] @
          ustr ''{\"id\": \"x3\", \"contents\": \"c\", \"lang\": \"en\"}'' @ [0x0A]
        else if p = [''out.jsonl''] then ustr ''stale'' @ [0x0A]
        else [])\<rparr>"

definition demo_disk_bad :: disk where
  "demo_disk_bad =
     \<lparr>tree = [([], Directory), ([''in.jsonl''], RegularFile), ([''out.jsonl''], RegularFile)],
      data = (\<lambda>p.
        if p = [''in.jsonl''] then
          ustr ''{\"id\": \"x1\", \"contents\": \"a caption\"}'' @ [0x0A] @
          ustr ''{\"id\": \"x2\"}'' @ [0x0A]
        else if p = [''out.jsonl''] then ustr ''stale'' @ [0x0A]
        else [])\<rparr>"


text \<open>The qrel record of the specification, a dataset that holds it with the text id as
  its first column, one with the image id first, and a disk with nothing but the output
  directory.\<close>

definition demo_record :: "string \<Rightarrow> pystr" where
  "demo_record c =
     (if c = ''image_id'' then ustr ''i1''
      else if c = ''Q0'' then ustr ''Q0''
      else if c = ''text_id'' then ustr ''t1''
      else if c = ''rel'' then ustr ''1''
      else [])"

definition demo_qrels :: dataset where
  "demo_qrels = \<lparr>column_names = [''text_id'', ''Q0'', ''image_id'', ''rel''], records = [demo_record]\<rparr>"

definition demo_qrels_image_first :: dataset where
  "demo_qrels_image_first =
     \<lparr>column_names = [''image_id'', ''Q0'', ''text_id'', ''rel''], records = [demo_record]\<rparr>"

definition empty_disk :: disk where
  "empty_disk = \<lparr>tree = [([], Directory)], data = (\<lambda>p. [])\<rparr>"


section \<open>Properties of create_index\<close>

lemma and_then_Inr_iff: "and_then m f = Inr y \<longleftrightarrow> (\<exists>x. m = Inr x \<and> f x = Inr y)"
  by (cases m) (simp_all add: and_then_def)

lemma and_then_Inl_iff: "and_then m f = Inl e \<longleftrightarrow> m = Inl e \<or> (\<exists>x. m = Inr x \<and> f x = Inl e)"
  by (cases m) (simp_all add: and_then_def)

lemma and_then_Inr [simp]: "and_then (Inr x) f = f x"
  by (simp add: and_then_def)

lemma and_then_Inl [simp]: "and_then (Inl e) f = Inl e"
  by (simp add: and_then_def)

subsection \<open>fnmatch\<close>

lemma fnmatch_literal: "literal lit \<Longrightarrow> fnmatch lit s \<longleftrightarrow> s = lit"
proof (induction lit arbitrary: s)
  case Nil
  then show ?case by simp
next
  case (Cons c lit)
  then show ?case by (cases s) (auto simp: literal_def)
qed

lemma fnmatch_star_literal: "literal lit \<Longrightarrow> fnmatch (CHR ''*'' # lit) s \<longleftrightarrow> suffix lit s"
proof (induction s)
  case Nil
  then show ?case by (auto simp: fnmatch_literal)
next
  case (Cons c s)
  then show ?case by (auto simp: fnmatch_literal suffix_Cons)
qed

lemma fnmatch_literal_prefix:
  "literal pre \<Longrightarrow> fnmatch (pre @ ps) s \<longleftrightarrow> prefix pre s \<and> fnmatch ps (drop (length pre) s)"
proof (induction pre arbitrary: s)
  case Nil
  then show ?case by simp
next
  case (Cons c pre)
  then have "literal pre" and "c \<noteq> CHR ''*''" and "c \<noteq> CHR ''?''"
    by (auto simp: literal_def)
  with Cons.IH show ?case by (cases s) auto
qed

lemma suffix_after_prefix:
  assumes "c \<notin> set pre"
  shows "suffix (c # lit) (pre @ t) \<longleftrightarrow> suffix (c # lit) t"
proof
  assume "suffix (c # lit) (pre @ t)"
  then obtain zs where "pre @ t = zs @ c # lit" by (auto simp: suffix_def)
  then obtain us where "(pre = zs @ us \<and> us @ t = c # lit) \<or> (pre @ us = zs \<and> t = us @ c # lit)"
    by (auto simp: append_eq_append_conv2)
  then show "suffix (c # lit) t"
  proof
    assume h: "pre = zs @ us \<and> us @ t = c # lit"
    show ?thesis
    proof (cases us)
      case Nil
      with h show ?thesis by simp
    next
      case (Cons u us')
      with h have "u = c" by simp
      with h Cons assms show ?thesis by simp
    qed
  next
    assume "pre @ us = zs \<and> t = us @ c # lit"
    then show ?thesis by (auto simp: suffix_def)
  qed
next
  assume "suffix (c # lit) t"
  then show "suffix (c # lit) (pre @ t)" by (simp add: suffix_appendI)
qed

lemma fnmatch_prefix_star_suffix:
  assumes "literal pre" "literal (c # lit)" "c \<notin> set pre"
  shows "fnmatch (pre @ CHR ''*'' # c # lit) s \<longleftrightarrow> prefix pre s \<and> suffix (c # lit) s"
proof (cases "prefix pre s")
  case True
  then obtain t where s: "s = pre @ t" by (auto simp: prefix_def)
  show ?thesis
    using assms
    by (simp add: s fnmatch_literal_prefix fnmatch_star_literal suffix_after_prefix
          del: fnmatch.simps)
next
  case False
  then show ?thesis using assms by (simp add: fnmatch_literal_prefix del: fnmatch.simps)
qed

lemma fnmatch_train: "fnmatch ''train*.jsonl'' s \<longleftrightarrow> prefix ''train'' s \<and> suffix ''.jsonl'' s"
  using fnmatch_prefix_star_suffix [of "''train''" "CHR ''.''" "''jsonl''" s]
  by (simp add: literal_def)

lemma fnmatch_validation:
  "fnmatch ''validation*.jsonl'' s \<longleftrightarrow> prefix ''validation'' s \<and> suffix ''.jsonl'' s"
  using fnmatch_prefix_star_suffix [of "''validation''" "CHR ''.''" "''jsonl''" s]
  by (simp add: literal_def)

lemma fnmatch_test: "fnmatch ''test*.jsonl'' s \<longleftrightarrow> prefix ''test'' s \<and> suffix ''.jsonl'' s"
  using fnmatch_prefix_star_suffix [of "''test''" "CHR ''.''" "''jsonl''" s]
  by (simp add: literal_def)

lemma fnmatch_any_jsonl: "fnmatch ''*.jsonl'' s \<longleftrightarrow> suffix ''.jsonl'' s"
  using fnmatch_star_literal [of "''.jsonl''" s] by (simp add: literal_def)


subsection \<open>Selection\<close>

lemma glob_names: "map last (glob pat d fs) = filter (fnmatch pat) (scandir d fs)"
  by (simp add: glob_def comp_def)

text \<open>Claim C1. In a collection directory whose entries all end in \<^verbatim>\<open>.jsonl\<close>, the setting
  \<^verbatim>\<open>base\<close> selects exactly the shards whose names begin with \<^verbatim>\<open>train\<close>,
  \<^verbatim>\<open>validation\<close> or \<^verbatim>\<open>test\<close>, whatever the split argument is; the setting
  \<^verbatim>\<open>large\<close> selects every shard, in scan order; and the setting \<^verbatim>\<open>small\<close> with the split
  \<^verbatim>\<open>validation\<close> selects the shards whose names begin with \<^verbatim>\<open>validation\<close> and no
  other.\<close>

theorem create_index_selects_shards:
  assumes "\<forall>n \<in> set (scandir [coll] fs). suffix ''.jsonl'' n"
  shows "(\<exists>ps. jsonl_paths ''base'' split coll fs = Inr ps \<and>
            set (map last ps) =
              set (filter (\<lambda>n. prefix ''train'' n \<or> prefix ''validation'' n \<or> prefix ''test'' n)
                     (scandir [coll] fs))) \<and>
         (\<exists>ps. jsonl_paths ''large'' split coll fs = Inr ps \<and>
            map last ps = scandir [coll] fs) \<and>
         (\<exists>ps. jsonl_paths ''small'' (Some ''validation'') coll fs = Inr ps \<and>
            map last ps = filter (prefix ''validation'') (scandir [coll] fs))"
proof -
  have all: "filter (\<lambda>n. suffix ''.jsonl'' n) (scandir [coll] fs) = scandir [coll] fs"
    using assms by (simp add: filter_id_conv)
  have both: "filter (\<lambda>n. prefix pre n \<and> suffix ''.jsonl'' n) (scandir [coll] fs)
      = filter (prefix pre) (scandir [coll] fs)" for pre
    using assms by (auto intro: filter_cong)
  have base: "set (map last (concat (map (\<lambda>s. glob (s @ ''*.jsonl'') [coll] fs)
        [''train'', ''validation'', ''test'']))) =
      set (filter (\<lambda>n. prefix ''train'' n \<or> prefix ''validation'' n \<or> prefix ''test'' n)
             (scandir [coll] fs))"
    using assms
    by (auto simp: glob_names fnmatch_train fnmatch_validation fnmatch_test
          simp del: fnmatch.simps)
  have "fnmatch ''*.jsonl'' = (\<lambda>n. suffix ''.jsonl'' n)"
    by (rule ext) (rule fnmatch_any_jsonl)
  then have large: "map last (glob ''*.jsonl'' [coll] fs) = scandir [coll] fs"
    by (simp add: glob_names all del: fnmatch.simps)
  have "fnmatch ''validation*.jsonl'' = (\<lambda>n. prefix ''validation'' n \<and> suffix ''.jsonl'' n)"
    by (rule ext) (rule fnmatch_validation)
  then have small: "map last (glob (''validation'' @ ''*.jsonl'') [coll] fs)
      = filter (prefix ''validation'') (scandir [coll] fs)"
    by (simp add: glob_names both del: fnmatch.simps)
  show ?thesis
    using base large small by (simp add: jsonl_paths_def fstr_def image_Un del: fnmatch.simps)
qed

lemma demo_scandir:
  "scandir [''text-collection''] demo_fs =
     [''train.text.jsonl'', ''validation.text.jsonl'', ''test.text.jsonl'', ''other.text.jsonl'']"
  by (simp add: scandir_def demo_fs_def)

text \<open>The directory of the example holds the four shards \<^verbatim>\<open>train.text.jsonl\<close>,
  \<^verbatim>\<open>validation.text.jsonl\<close>, \<^verbatim>\<open>test.text.jsonl\<close> and \<^verbatim>\<open>other.text.jsonl\<close>.\<close>

theorem create_index_selects_shards_witness:
  "(\<exists>ps. jsonl_paths ''base'' None ''text-collection'' demo_fs = Inr ps \<and>
      set (map last ps) = {''train.text.jsonl'', ''validation.text.jsonl'', ''test.text.jsonl''}) \<and>
   (\<exists>ps. jsonl_paths ''large'' None ''text-collection'' demo_fs = Inr ps \<and>
      map last ps =
        [''train.text.jsonl'', ''validation.text.jsonl'', ''test.text.jsonl'', ''other.text.jsonl'']) \<and>
   (\<exists>ps. jsonl_paths ''small'' (Some ''validation'') ''text-collection'' demo_fs = Inr ps \<and>
      map last ps = [''validation.text.jsonl''])"
proof -
  have h: "\<forall>n \<in> set (scandir [''text-collection''] demo_fs). suffix ''.jsonl'' n"
    by (simp add: demo_scandir suffix_to_prefix)
  show ?thesis
    using create_index_selects_shards [OF h, of None]
    by (simp add: demo_scandir)
qed

subsection \<open>Usage error\<close>

lemma mkdir_exist_ok_error:
  "mkdir_exist_ok p fs = Inl e \<Longrightarrow> e \<in> {FileExistsError, NotADirectoryError, FileNotFoundError}"
  by (auto simp: mkdir_exist_ok_def split: option.splits node.splits)

lemma symlink_to_error:
  "symlink_to l t fs = Inl e \<Longrightarrow> e \<in> {FileExistsError, NotADirectoryError, FileNotFoundError}"
  by (auto simp: symlink_to_def split: option.splits node.splits)

lemma link_all_error:
  "link_all d ps fs = Inl e \<Longrightarrow> e \<in> {FileExistsError, NotADirectoryError, FileNotFoundError}"
proof (induction ps arbitrary: fs)
  case Nil
  then show ?case by simp
next
  case (Cons p ps)
  then show ?case
    by (auto simp: and_then_Inl_iff dest: symlink_to_error)
qed

lemma jsonl_paths_error: "jsonl_paths setting split coll fs = Inl e \<Longrightarrow> e = UnboundLocalError"
  by (auto simp: jsonl_paths_def split: if_splits)

lemma stage_error: "stage setting split pf fs = Inl e \<Longrightarrow> e \<noteq> UsageError"
  unfolding stage_def and_then_Inl_iff
  by (auto dest!: mkdir_exist_ok_error link_all_error jsonl_paths_error)

lemma run_indexer_error: "run_indexer env args fs = Inl e \<Longrightarrow> e = JavaException"
  by (auto simp: run_indexer_def split: option.splits)

lemma postfix_error: "postfix setting split = Inl e \<Longrightarrow> e = TypeError"
  by (auto simp: postfix_def split: if_splits option.splits)

text \<open>Claim C2. \<open>create_index\<close> raises the usage error exactly when the setting is
  \<^verbatim>\<open>small\<close> and the split is missing or empty; no other path through the function ends
  in that exception.\<close>

theorem create_index_usage_error:
  "create_index env setting split fs = Inl UsageError \<longleftrightarrow> setting = ''small'' \<and> falsy split"
proof (cases "setting = ''small'' \<and> falsy split")
  case True
  then show ?thesis by (simp add: create_index_def)
next
  case False
  have "create_index env setting split fs \<noteq> Inl UsageError"
  proof
    assume "create_index env setting split fs = Inl UsageError"
    with False show False
      by (auto simp: create_index_def and_then_Inl_iff split: if_splits
            dest!: postfix_error stage_error run_indexer_error)
  qed
  with False show ?thesis by simp
qed

text \<open>The usage error with no split and with the empty split, and none for the base
  setting.\<close>

theorem create_index_usage_error_witness:
  "create_index demo_env ''small'' None demo_fs = Inl UsageError \<and>
   create_index demo_env ''small'' (Some []) demo_fs = Inl UsageError \<and>
   create_index demo_env ''base'' None demo_fs \<noteq> Inl UsageError \<and>
   create_index demo_env ''small'' (Some ''validation'') demo_fs \<noteq> Inl UsageError"
  using create_index_usage_error [of demo_env "''small''" None demo_fs]
    create_index_usage_error [of demo_env "''small''" "Some []" demo_fs]
    create_index_usage_error [of demo_env "''base''" None demo_fs]
    create_index_usage_error [of demo_env "''small''" "Some ''validation''" demo_fs]
  by (simp add: falsy_def)

subsection \<open>Split independence\<close>

text \<open>Claim C8. For a setting other than \<^verbatim>\<open>small\<close> the split argument has no effect: the
  postfix is empty, so the staging directories and the index paths carry no split; the
  selected shards are the same; and the staging and the whole run (the calls of the
  indexer included, for every external interface) are the same for any two splits.\<close>

theorem create_index_ignores_split:
  assumes "setting \<noteq> ''small''"
  shows "postfix setting split = Inr [] \<and>
         postfix setting split' = Inr [] \<and>
         jsonl_paths setting split coll fs = jsonl_paths setting split' coll fs \<and>
         stage setting split [] fs = stage setting split' [] fs \<and>
         create_index env setting split fs = create_index env setting split' fs"
proof -
  have p: "postfix setting s = Inr []" for s
    using assms by (simp add: postfix_def)
  have j: "jsonl_paths setting split c fs' = jsonl_paths setting split' c fs'" for c fs'
    using assms by (simp add: jsonl_paths_def)
  have s: "stage setting split pf fs = stage setting split' pf fs" for pf
    by (simp add: stage_def j)
  show ?thesis
    using assms by (simp add: p j s create_index_def)
qed

subsection \<open>Running create_index again\<close>

lemma map_le_snoc: "map_of fs p = None \<Longrightarrow> map_of fs \<subseteq>\<^sub>m map_of (fs @ [(p, n)])"
  by (auto simp: map_le_def map_add_def dom_def split: option.splits)

lemma map_of_snoc_new: "map_of fs p = None \<Longrightarrow> map_of (fs @ [(p, n)]) p = Some n"
  by (simp add: map_add_def)

lemma mkdir_exist_ok_existing: "map_of fs p = Some Directory \<Longrightarrow> mkdir_exist_ok p fs = Inr fs"
  by (simp add: mkdir_exist_ok_def)

lemma mkdir_exist_ok_result:
  assumes "mkdir_exist_ok p fs = Inr fs'"
  shows "map_of fs \<subseteq>\<^sub>m map_of fs' \<and> map_of fs' p = Some Directory"
proof -
  from assms consider
    (old) "map_of fs p = Some Directory" "fs' = fs" |
    (new) "map_of fs p = None" "fs' = fs @ [(p, Directory)]"
    by (auto simp: mkdir_exist_ok_def split: option.splits node.splits)
  then show ?thesis
  proof cases
    case old
    then show ?thesis by simp
  next
    case new
    then show ?thesis
      using map_le_snoc [of fs p Directory] map_of_snoc_new [of fs p Directory] by simp
  qed
qed

lemma symlink_to_result:
  assumes "symlink_to l t fs = Inr fs'"
  shows "map_of fs \<subseteq>\<^sub>m map_of fs' \<and> map_of fs' l \<noteq> None"
proof -
  from assms have "map_of fs l = None" "fs' = fs @ [(l, Symlink t)]"
    by (auto simp: symlink_to_def split: option.splits node.splits)
  then show ?thesis
    using map_le_snoc [of fs l "Symlink t"] map_of_snoc_new [of fs l "Symlink t"] by simp
qed

lemma map_le_Some: "m \<subseteq>\<^sub>m m' \<Longrightarrow> m k = Some v \<Longrightarrow> m' k = Some v"
  by (auto simp: map_le_def dom_def)

lemma map_le_not_None: "m \<subseteq>\<^sub>m m' \<Longrightarrow> m k \<noteq> None \<Longrightarrow> m' k \<noteq> None"
  by (auto simp: map_le_def dom_def)

lemma link_all_result:
  "link_all d ps fs = Inr fs' \<Longrightarrow>
     map_of fs \<subseteq>\<^sub>m map_of fs' \<and> (\<forall>p \<in> set ps. map_of fs' (d @ [last p]) \<noteq> None)"
proof (induction ps arbitrary: fs)
  case Nil
  then show ?case by simp
next
  case (Cons p ps)
  from Cons.prems obtain fs1 where
    s: "symlink_to (d @ [last p]) p fs = Inr fs1" and r: "link_all d ps fs1 = Inr fs'"
    by (auto simp: and_then_Inr_iff)
  from symlink_to_result [OF s] Cons.IH [OF r] show ?case
    by (auto intro: map_le_trans dest: map_le_not_None)
qed

lemma link_all_existing_dir_error:
  "link_all d ps fs = Inl e \<Longrightarrow> map_of fs d = Some Directory \<Longrightarrow> e = FileExistsError"
proof (induction ps arbitrary: fs)
  case Nil
  then show ?case by simp
next
  case (Cons p ps)
  show ?case
  proof (cases "symlink_to (d @ [last p]) p fs")
    case (Inl e')
    with Cons.prems show ?thesis
      by (auto simp: symlink_to_def split: option.splits node.splits)
  next
    case (Inr fs1)
    from symlink_to_result [OF Inr] Cons.prems(2) have "map_of fs1 d = Some Directory"
      by (auto dest: map_le_Some)
    with Cons.IH [of fs1] Cons.prems(1) Inr show ?thesis by simp
  qed
qed

lemma link_all_again:
  "map_of fs d = Some Directory \<Longrightarrow> \<exists>p \<in> set ps. map_of fs (d @ [last p]) \<noteq> None \<Longrightarrow>
     link_all d ps fs = Inl FileExistsError"
proof (induction ps arbitrary: fs)
  case Nil
  then show ?case by simp
next
  case (Cons p ps)
  show ?case
  proof (cases "map_of fs (d @ [last p])")
    case (Some n)
    then show ?thesis by (simp add: symlink_to_def)
  next
    case None
    with Cons.prems(1) have s: "symlink_to (d @ [last p]) p fs = Inr (fs @ [(d @ [last p], Symlink p)])"
      by (simp add: symlink_to_def)
    from symlink_to_result [OF s] have le: "map_of fs \<subseteq>\<^sub>m map_of (fs @ [(d @ [last p], Symlink p)])"
      by simp
    from None Cons.prems(2) obtain q where q: "q \<in> set ps" "map_of fs (d @ [last q]) \<noteq> None"
      by auto
    have "link_all d ps (fs @ [(d @ [last p], Symlink p)]) = Inl FileExistsError"
    proof (rule Cons.IH)
      show "map_of (fs @ [(d @ [last p], Symlink p)]) d = Some Directory"
        using le Cons.prems(1) by (rule map_le_Some)
      show "\<exists>p' \<in> set ps. map_of (fs @ [(d @ [last p], Symlink p)]) (d @ [last p']) \<noteq> None"
        using q le by (blast dest: map_le_not_None)
    qed
    with s show ?thesis by simp
  qed
qed

lemma scandir_mono:
  assumes "map_of fs \<subseteq>\<^sub>m map_of fs'"
  shows "set (scandir d fs) \<subseteq> set (scandir d fs')"
proof
  fix n assume n: "n \<in> set (scandir d fs)"
  then have dir: "map_of fs d = Some Directory"
    by (auto simp: scandir_def split: if_splits)
  from n dir obtain p x where px: "(p, x) \<in> set fs" "p \<noteq> []" "butlast p = d" "last p = n"
    by (auto simp: scandir_def)
  from px(1) obtain y where "map_of fs p = Some y"
    by (cases "map_of fs p") (auto simp: map_of_eq_None_iff image_iff)
  with assms have "map_of fs' p = Some y" by (rule map_le_Some)
  then have "(p, y) \<in> set fs'" by (rule map_of_SomeD)
  moreover from assms dir have "map_of fs' d = Some Directory" by (rule map_le_Some)
  ultimately show "n \<in> set (scandir d fs')"
    using px by (force simp: scandir_def)
qed

lemma glob_mono:
  "map_of fs \<subseteq>\<^sub>m map_of fs' \<Longrightarrow> set (glob pat d fs) \<subseteq> set (glob pat d fs')"
  using scandir_mono [of fs fs' d] by (auto simp: glob_def simp del: fnmatch.simps)

lemma jsonl_paths_mono:
  assumes "map_of fs \<subseteq>\<^sub>m map_of fs'" "jsonl_paths setting split coll fs = Inr ps"
  shows "\<exists>ps'. jsonl_paths setting split coll fs' = Inr ps' \<and> set ps \<subseteq> set ps'"
proof -
  note g = glob_mono [OF assms(1)]
  show ?thesis
    using assms(2) g [of "fstr split @ ''*.jsonl''" "[coll]"] g [of "''*.jsonl''" "[coll]"]
      g [of "''train*.jsonl''" "[coll]"] g [of "''validation*.jsonl''" "[coll]"]
      g [of "''test*.jsonl''" "[coll]"]
    by (auto simp: jsonl_paths_def simp del: fnmatch.simps split: if_splits)
qed

lemma stage_result:
  assumes "stage setting split pf fs = Inr fs5"
  shows "\<exists>tps ips fs2.
           map_of fs \<subseteq>\<^sub>m map_of fs2 \<and> map_of fs2 \<subseteq>\<^sub>m map_of fs5 \<and>
           jsonl_paths setting split ''text-collection'' fs2 = Inr tps \<and>
           jsonl_paths setting split ''image-collection'' fs2 = Inr ips \<and>
           map_of fs5 (text_dir setting pf) = Some Directory \<and>
           map_of fs5 (image_dir setting pf) = Some Directory \<and>
           map_of fs5 indexes = Some Directory \<and>
           (\<forall>p \<in> set tps. map_of fs5 (text_dir setting pf @ [last p]) \<noteq> None) \<and>
           (\<forall>p \<in> set ips. map_of fs5 (image_dir setting pf @ [last p]) \<noteq> None)"
proof -
  from assms obtain fs1 fs2 tps ips fs3 fs4 where
    m1: "mkdir_exist_ok (text_dir setting pf) fs = Inr fs1" and
    m2: "mkdir_exist_ok (image_dir setting pf) fs1 = Inr fs2" and
    j1: "jsonl_paths setting split ''text-collection'' fs2 = Inr tps" and
    j2: "jsonl_paths setting split ''image-collection'' fs2 = Inr ips" and
    l1: "link_all (text_dir setting pf) tps fs2 = Inr fs3" and
    l2: "link_all (image_dir setting pf) ips fs3 = Inr fs4" and
    m3: "mkdir_exist_ok indexes fs4 = Inr fs5"
    unfolding stage_def and_then_Inr_iff by blast
  note r1 = mkdir_exist_ok_result [OF m1] and r2 = mkdir_exist_ok_result [OF m2]
    and r3 = link_all_result [OF l1] and r4 = link_all_result [OF l2]
    and r5 = mkdir_exist_ok_result [OF m3]
  have le02: "map_of fs \<subseteq>\<^sub>m map_of fs2"
    using r1 r2 by (blast intro: map_le_trans)
  have le45: "map_of fs4 \<subseteq>\<^sub>m map_of fs5" using r5 by simp
  have le35: "map_of fs3 \<subseteq>\<^sub>m map_of fs5" using r4 le45 by (blast intro: map_le_trans)
  have le25: "map_of fs2 \<subseteq>\<^sub>m map_of fs5" using r3 le35 by (blast intro: map_le_trans)
  have le15: "map_of fs1 \<subseteq>\<^sub>m map_of fs5" using r2 le25 by (blast intro: map_le_trans)
  have t: "map_of fs5 (text_dir setting pf) = Some Directory"
    using r1 le15 by (blast dest: map_le_Some)
  have i: "map_of fs5 (image_dir setting pf) = Some Directory"
    using r2 le25 by (blast dest: map_le_Some)
  have lt: "\<forall>p \<in> set tps. map_of fs5 (text_dir setting pf @ [last p]) \<noteq> None"
    using r3 le35 by (blast dest: map_le_not_None)
  have li: "\<forall>p \<in> set ips. map_of fs5 (image_dir setting pf @ [last p]) \<noteq> None"
    using r4 le45 by (blast dest: map_le_not_None)
  from le02 le25 j1 j2 t i r5 lt li show ?thesis by blast
qed

lemma stage_again:
  assumes le: "map_of fs2 \<subseteq>\<^sub>m map_of fs'"
    and j1: "jsonl_paths setting split ''text-collection'' fs2 = Inr tps"
    and j2: "jsonl_paths setting split ''image-collection'' fs2 = Inr ips"
    and t: "map_of fs' (text_dir setting pf) = Some Directory"
    and i: "map_of fs' (image_dir setting pf) = Some Directory"
    and lt: "\<forall>p \<in> set tps. map_of fs' (text_dir setting pf @ [last p]) \<noteq> None"
    and li: "\<forall>p \<in> set ips. map_of fs' (image_dir setting pf @ [last p]) \<noteq> None"
    and some: "tps \<noteq> [] \<or> ips \<noteq> []"
  shows "stage setting split pf fs' = Inl FileExistsError"
proof -
  from jsonl_paths_mono [OF le j1] obtain tps' where
    j1': "jsonl_paths setting split ''text-collection'' fs' = Inr tps'" and s1: "set tps \<subseteq> set tps'"
    by blast
  from jsonl_paths_mono [OF le j2] obtain ips' where
    j2': "jsonl_paths setting split ''image-collection'' fs' = Inr ips'" and s2: "set ips \<subseteq> set ips'"
    by blast
  have links: "link_all (text_dir setting pf) tps' fs' = Inl FileExistsError \<or>
      (\<exists>fs3. link_all (text_dir setting pf) tps' fs' = Inr fs3 \<and>
         link_all (image_dir setting pf) ips' fs3 = Inl FileExistsError)"
  proof (cases "tps = []")
    case False
    then obtain p where "p \<in> set tps" by (cases tps) auto
    with s1 lt have "\<exists>p \<in> set tps'. map_of fs' (text_dir setting pf @ [last p]) \<noteq> None"
      by blast
    with t show ?thesis by (simp add: link_all_again)
  next
    case True
    with some obtain q where "q \<in> set ips" by (cases ips) auto
    with s2 li have ex: "q \<in> set ips'" "map_of fs' (image_dir setting pf @ [last q]) \<noteq> None"
      by auto
    show ?thesis
    proof (cases "link_all (text_dir setting pf) tps' fs'")
      case (Inl e)
      with t show ?thesis by (simp add: link_all_existing_dir_error)
    next
      case (Inr fs3)
      from link_all_result [OF Inr] have le3: "map_of fs' \<subseteq>\<^sub>m map_of fs3" by simp
      have "link_all (image_dir setting pf) ips' fs3 = Inl FileExistsError"
      proof (rule link_all_again)
        show "map_of fs3 (image_dir setting pf) = Some Directory"
          using le3 i by (rule map_le_Some)
        show "\<exists>p \<in> set ips'. map_of fs3 (image_dir setting pf @ [last p]) \<noteq> None"
          using ex le3 by (blast dest: map_le_not_None)
      qed
      with Inr show ?thesis by simp
    qed
  qed
  have "stage setting split pf fs' =
      and_then (link_all (text_dir setting pf) tps' fs') (\<lambda>fs3.
      and_then (link_all (image_dir setting pf) ips' fs3) (\<lambda>fs4. mkdir_exist_ok indexes fs4))"
    by (simp add: stage_def mkdir_exist_ok_existing t i j1' j2')
  with links show ?thesis by auto
qed

text \<open>Claim C7. Let a first run of \<open>create_index\<close> succeed and select at least one
  shard, with an indexer that leaves the existing nodes of the tree as they are. In the
  tree it leaves behind, creating the two staging directories and the index directory
  again succeeds and changes nothing, and the same call of \<open>create_index\<close> ends in
  \<open>FileExistsError\<close>: a link of the first run is in the way, and nothing handles the
  exception.\<close>

theorem create_index_again:
  assumes first: "create_index env setting split fs = Inr fs'"
    and keeps: "\<And>args s s'. anserini_index env args s = Some s' \<Longrightarrow> map_of s \<subseteq>\<^sub>m map_of s'"
    and some: "jsonl_paths setting split ''text-collection'' fs \<noteq> Inr [] \<or>
               jsonl_paths setting split ''image-collection'' fs \<noteq> Inr []"
  shows "\<exists>pf. postfix setting split = Inr pf \<and>
           mkdir_exist_ok (text_dir setting pf) fs' = Inr fs' \<and>
           mkdir_exist_ok (image_dir setting pf) fs' = Inr fs' \<and>
           mkdir_exist_ok indexes fs' = Inr fs' \<and>
           create_index env setting split fs' = Inl FileExistsError"
proof -
  from first have chk: "\<not> (setting = ''small'' \<and> falsy split)"
    by (auto simp: create_index_def)
  with first obtain pf fs5 fs6 where
    pf: "postfix setting split = Inr pf" and
    st: "stage setting split pf fs = Inr fs5" and
    x1: "run_indexer env (text_indexing_args env setting pf) fs5 = Inr fs6" and
    x2: "run_indexer env (image_indexing_args env setting pf) fs6 = Inr fs'"
    by (auto simp: create_index_def and_then_Inr_iff)
  have ri: "map_of s \<subseteq>\<^sub>m map_of s'" if "run_indexer env args s = Inr s'" for args s s'
    using that keeps [of args s s'] by (auto simp: run_indexer_def split: option.splits)
  have le5: "map_of fs5 \<subseteq>\<^sub>m map_of fs'"
    using ri [OF x1] ri [OF x2] by (rule map_le_trans)
  from stage_result [OF st] obtain tps ips fs2 where
    le02: "map_of fs \<subseteq>\<^sub>m map_of fs2" and le25: "map_of fs2 \<subseteq>\<^sub>m map_of fs5" and
    j1: "jsonl_paths setting split ''text-collection'' fs2 = Inr tps" and
    j2: "jsonl_paths setting split ''image-collection'' fs2 = Inr ips" and
    t5: "map_of fs5 (text_dir setting pf) = Some Directory" and
    i5: "map_of fs5 (image_dir setting pf) = Some Directory" and
    x5: "map_of fs5 indexes = Some Directory" and
    lt5: "\<forall>p \<in> set tps. map_of fs5 (text_dir setting pf @ [last p]) \<noteq> None" and
    li5: "\<forall>p \<in> set ips. map_of fs5 (image_dir setting pf @ [last p]) \<noteq> None"
    by blast
  have t: "map_of fs' (text_dir setting pf) = Some Directory"
    using le5 t5 by (rule map_le_Some)
  have i: "map_of fs' (image_dir setting pf) = Some Directory"
    using le5 i5 by (rule map_le_Some)
  have x: "map_of fs' indexes = Some Directory"
    using le5 x5 by (rule map_le_Some)
  have lt: "\<forall>p \<in> set tps. map_of fs' (text_dir setting pf @ [last p]) \<noteq> None"
    using lt5 le5 by (blast dest: map_le_not_None)
  have li: "\<forall>p \<in> set ips. map_of fs' (image_dir setting pf @ [last p]) \<noteq> None"
    using li5 le5 by (blast dest: map_le_not_None)
  have ne: "tps \<noteq> [] \<or> ips \<noteq> []"
  proof (rule ccontr)
    assume "\<not> (tps \<noteq> [] \<or> ips \<noteq> [])"
    then have e: "tps = []" "ips = []" by auto
    have "jsonl_paths setting split coll fs = Inr []"
      if "jsonl_paths setting split coll fs2 = Inr []" for coll
    proof (cases "jsonl_paths setting split coll fs")
      case (Inl err)
      with that show ?thesis by (auto simp: jsonl_paths_def split: if_splits)
    next
      case (Inr ps)
      from jsonl_paths_mono [OF le02 Inr] that have "ps = []" by auto
      with Inr show ?thesis by simp
    qed
    with j1 j2 e some show False by blast
  qed
  have le2: "map_of fs2 \<subseteq>\<^sub>m map_of fs'"
    using le25 le5 by (rule map_le_trans)
  have "stage setting split pf fs' = Inl FileExistsError"
    using le2 j1 j2 t i lt li ne by (rule stage_again)
  then have "create_index env setting split fs' = Inl FileExistsError"
    using chk pf by (simp add: create_index_def)
  with pf t i x show ?thesis
    by (simp add: mkdir_exist_ok_existing)
qed

lemma demo_first_run:
  "create_index demo_env ''small'' (Some ''validation'') demo_fs = Inr demo_staged"
  by (simp add: create_index_def falsy_def postfix_def stage_def text_dir_def image_dir_def
        indexes_def mkdir_exist_ok_def jsonl_paths_def fstr_def glob_def scandir_def
        symlink_to_def run_indexer_def demo_env_def demo_fs_def demo_staged_def)

text \<open>The first run on the example directory, for the small setting and the validation
  split, and the second run on its result.\<close>

theorem create_index_again_witness:
  "\<exists>pf. postfix ''small'' (Some ''validation'') = Inr pf \<and>
     mkdir_exist_ok (text_dir ''small'' pf) demo_staged = Inr demo_staged \<and>
     mkdir_exist_ok (image_dir ''small'' pf) demo_staged = Inr demo_staged \<and>
     mkdir_exist_ok indexes demo_staged = Inr demo_staged \<and>
     create_index demo_env ''small'' (Some ''validation'') demo_staged = Inl FileExistsError"
proof -
  have keeps: "\<And>args s s'. anserini_index demo_env args s = Some s' \<Longrightarrow> map_of s \<subseteq>\<^sub>m map_of s'"
    by (simp add: demo_env_def)
  have some: "jsonl_paths ''small'' (Some ''validation'') ''text-collection'' demo_fs \<noteq> Inr [] \<or>
      jsonl_paths ''small'' (Some ''validation'') ''image-collection'' demo_fs \<noteq> Inr []"
    by (simp add: jsonl_paths_def fstr_def glob_def scandir_def demo_fs_def)
  show ?thesis
    using create_index_again [OF demo_first_run keeps some] .
qed

text \<open>The base setting with no split and with the split \<^verbatim>\<open>test\<close>.\<close>

theorem create_index_ignores_split_witness:
  "postfix ''base'' None = Inr [] \<and>
   postfix ''base'' (Some ''test'') = Inr [] \<and>
   jsonl_paths ''base'' None ''text-collection'' demo_fs =
     jsonl_paths ''base'' (Some ''test'') ''text-collection'' demo_fs \<and>
   stage ''base'' None [] demo_fs = stage ''base'' (Some ''test'') [] demo_fs \<and>
   create_index demo_env ''base'' None demo_fs = create_index demo_env ''base'' (Some ''test'') demo_fs"
proof -
  have "''base'' \<noteq> ''small''" by simp
  then show ?thesis by (rule create_index_ignores_split)
qed

section \<open>Properties of the worker pool\<close>

subsection \<open>Chunks\<close>

lemma chunksize_pos: "1 \<le> n \<Longrightarrow> 0 < len \<Longrightarrow> 0 < chunksize n len"
proof -
  assume n: "1 \<le> n" and len: "0 < len"
  show ?thesis
  proof (cases "len mod (n * 4) = 0")
    case True
    then have "len = (len div (n * 4)) * (n * 4)" by auto
    with len have "0 < len div (n * 4)" by (cases "len div (n * 4)") auto
    with True len show ?thesis by (simp add: chunksize_def)
  next
    case False
    with len show ?thesis by (simp add: chunksize_def)
  qed
qed

lemma get_tasks_Nil [simp]: "get_tasks sz [] = []"
  by (subst get_tasks.simps) simp

lemma get_tasks_length: "0 < sz \<Longrightarrow> i < length (get_tasks sz xs) \<longleftrightarrow> i * sz < length xs"
proof (induction sz xs arbitrary: i rule: get_tasks.induct)
  case (1 sz xs)
  show ?case
  proof (cases "xs = []")
    case True
    then show ?thesis by simp
  next
    case False
    show ?thesis
    proof (cases i)
      case 0
      with False 1(2) show ?thesis by (subst get_tasks.simps) simp
    next
      case (Suc k)
      from False 1(2) have "k < length (get_tasks sz (drop sz xs)) \<longleftrightarrow> k * sz < length (drop sz xs)"
        by (intro 1(1)) auto
      with False 1(2) Suc show ?thesis
        by (subst get_tasks.simps) (auto simp: less_diff_conv)
    qed
  qed
qed

lemma get_tasks_nth:
  "0 < sz \<Longrightarrow> i < length (get_tasks sz xs) \<Longrightarrow> get_tasks sz xs ! i = take sz (drop (i * sz) xs)"
proof (induction sz xs arbitrary: i rule: get_tasks.induct)
  case (1 sz xs)
  from 1(3) have ne: "xs \<noteq> []" by (auto split: if_splits)
  show ?case
  proof (cases i)
    case 0
    with ne 1(2) show ?thesis by (subst get_tasks.simps) simp
  next
    case (Suc k)
    with ne 1(2) 1(3) have k: "k < length (get_tasks sz (drop sz xs))"
      by (subst (asm) get_tasks.simps) simp
    from ne 1(2) have "get_tasks sz (drop sz xs) ! k = take sz (drop (k * sz) (drop sz xs))"
      by (intro 1(1) k) auto
    with ne 1(2) Suc show ?thesis
      by (subst get_tasks.simps) (simp add: add.commute)
  qed
qed

subsection \<open>mapstar\<close>

lemma mapstar_Inr_iff: "mapstar f xs = Inr ys \<longleftrightarrow> list_all2 (\<lambda>x y. f x = Inr y) xs ys"
proof (induction xs arbitrary: ys)
  case Nil
  then show ?case by auto
next
  case (Cons x xs)
  show ?case
    by (cases ys) (auto simp: and_then_Inr_iff Cons.IH)
qed

lemma mapstar_Inl_iff: "(\<exists>e. mapstar f xs = Inl e) \<longleftrightarrow> (\<exists>x \<in> set xs. \<exists>e. f x = Inl e)"
proof (induction xs)
  case Nil
  then show ?case by simp
next
  case (Cons x xs)
  show ?case
  proof (cases "f x")
    case (Inl e)
    then show ?thesis by simp
  next
    case (Inr y)
    show ?thesis
    proof (cases "mapstar f xs")
      case (Inl e)
      with Inr Cons.IH show ?thesis by auto
    next
      case r: (Inr ys)
      with Inr Cons.IH show ?thesis by auto
    qed
  qed
qed

subsection \<open>The order of completion\<close>

lemma completion_order_set: "set (completion_order n sched) = {..<n}"
  by (auto simp: completion_order_def)

lemma completion_order_distinct: "distinct (completion_order n sched)"
  by (auto simp: completion_order_def)

subsection \<open>Pool.map when every item succeeds\<close>

lemma set_chunk_slots:
  assumes sz: "0 < sz" and i: "i * sz < length ys"
    and v: "v = map (\<lambda>j. if j div sz \<in> S then Some (ys ! j) else None) [0..<length ys]"
  shows "take (i * sz) v @ map Some (take sz (drop (i * sz) ys)) @ drop ((i + 1) * sz) v =
         map (\<lambda>j. if j div sz \<in> insert i S then Some (ys ! j) else None) [0..<length ys]"
    (is "?l = ?r")
proof (rule nth_equalityI)
  have lv: "length v = length ys" by (simp add: v)
  show len: "length ?l = length ?r"
    using i by (auto simp: lv min_def)
  fix j assume "j < length ?l"
  with len have j: "j < length ys" by simp
  have div_i: "j div sz = i \<longleftrightarrow> i * sz \<le> j \<and> j < (i + 1) * sz"
  proof
    assume e: "j div sz = i"
    have "(j div sz) * sz \<le> j" by (rule div_times_less_eq_dividend)
    moreover have "j < sz + (j div sz) * sz" using sz by (rule dividend_less_div_times)
    ultimately show "i * sz \<le> j \<and> j < (i + 1) * sz" using e by (simp add: add.commute)
  next
    assume "i * sz \<le> j \<and> j < (i + 1) * sz"
    then show "j div sz = i"
      by (intro div_nat_eqI) (auto simp: mult.commute)
  qed
  consider (before) "j < i * sz" | (inside) "i * sz \<le> j" "j < (i + 1) * sz" | (after) "(i + 1) * sz \<le> j"
    by linarith
  then show "?l ! j = ?r ! j"
  proof cases
    case before
    then have "j div sz \<noteq> i" using div_i by simp
    with before j show ?thesis by (simp add: nth_append lv v)
  next
    case inside
    then have d: "j div sz = i" using div_i by simp
    from inside j have "j - i * sz < length (take sz (drop (i * sz) ys))" by auto
    with inside j d show ?thesis
      by (simp add: nth_append lv min_def)
  next
    case after
    then have n: "j div sz \<noteq> i" using div_i by simp
    from after j have full: "length (take sz (drop (i * sz) ys)) = sz" by auto
    have a: "\<not> j < i * sz" using after by simp
    have b: "\<not> j - i * sz < sz" using after by simp
    have c: "(i + 1) * sz + (j - i * sz - sz) = j" using after by simp
    have la: "length (take (i * sz) v) = i * sz" using i lv by simp
    have lb: "length (map Some (take sz (drop (i * sz) ys))) = sz" using full by simp
    have "?l ! j = (map Some (take sz (drop (i * sz) ys)) @ drop ((i + 1) * sz) v) ! (j - i * sz)"
      by (simp only: nth_append la a if_False)
    also have "\<dots> = drop ((i + 1) * sz) v ! (j - i * sz - sz)"
      by (simp only: nth_append lb b if_False)
    also have "\<dots> = v ! ((i + 1) * sz + (j - i * sz - sz))"
      using after j lv by (intro nth_drop) simp
    also have "\<dots> = v ! j" by (simp only: c)
    finally show ?thesis using n j by (simp add: v)
  qed
qed

lemma pool_fold_success:
  assumes sz: "0 < sz" and all: "list_all2 (\<lambda>x y. f x = Inr y) xs ys"
  shows "set order \<subseteq> {i. i * sz < length xs} \<Longrightarrow>
         foldl (\<lambda>mr i. set_chunk sz i (mapstar f (get_tasks sz xs ! i)) mr)
           \<lparr>slots = replicate (length xs) None, failure = None\<rparr> order =
         \<lparr>slots = map (\<lambda>j. if j div sz \<in> set order then Some (ys ! j) else None) [0..<length ys],
          failure = None\<rparr>"
proof (induction order rule: rev_induct)
  case Nil
  from all have "length xs = length ys" by (rule list_all2_lengthD)
  then show ?case by (simp add: map_replicate_const)
next
  case (snoc i order)
  from snoc.prems have i: "i * sz < length xs" and sub: "set order \<subseteq> {i. i * sz < length xs}"
    by auto
  from all have len: "length xs = length ys" by (rule list_all2_lengthD)
  from sz i have "i < length (get_tasks sz xs)" by (simp add: get_tasks_length)
  with sz have t: "get_tasks sz xs ! i = take sz (drop (i * sz) xs)" by (rule get_tasks_nth)
  from all have "list_all2 (\<lambda>x y. f x = Inr y) (take sz (drop (i * sz) xs)) (take sz (drop (i * sz) ys))"
    by (intro list_all2_takeI list_all2_dropI)
  then have m: "mapstar f (get_tasks sz xs ! i) = Inr (take sz (drop (i * sz) ys))"
    by (simp add: t mapstar_Inr_iff)
  from i len have i': "i * sz < length ys" by simp
  have "take (i * sz) (map (\<lambda>j. if j div sz \<in> set order then Some (ys ! j) else None) [0..<length ys]) @
        map Some (take sz (drop (i * sz) ys)) @
        drop ((i + 1) * sz) (map (\<lambda>j. if j div sz \<in> set order then Some (ys ! j) else None) [0..<length ys]) =
        map (\<lambda>j. if j div sz \<in> insert i (set order) then Some (ys ! j) else None) [0..<length ys]"
    using sz i' by (rule set_chunk_slots) simp
  then have "set_chunk sz i (Inr (take sz (drop (i * sz) ys)))
        \<lparr>slots = map (\<lambda>j. if j div sz \<in> set order then Some (ys ! j) else None) [0..<length ys],
         failure = None\<rparr> =
      \<lparr>slots = map (\<lambda>j. if j div sz \<in> set (order @ [i]) then Some (ys ! j) else None) [0..<length ys],
       failure = None\<rparr>"
    by (simp add: set_chunk_def del: map_map upt.simps take_map drop_map)
  then show ?case
    unfolding foldl_append foldl_Cons foldl_Nil snoc.IH [OF sub] m .
qed

lemma pool_map_success:
  assumes n: "1 \<le> n" and ok: "mapstar f xs = Inr ys"
  shows "pool_map n sched f xs = Inr (map Some ys)"
proof (cases "xs = []")
  case True
  with ok show ?thesis
    by (simp add: pool_map_def chunksize_def completion_order_def)
next
  case False
  define sz where "sz = chunksize n (length xs)"
  from n False have sz: "0 < sz" by (simp add: sz_def chunksize_pos)
  from ok have all: "list_all2 (\<lambda>x y. f x = Inr y) xs ys" by (simp add: mapstar_Inr_iff)
  then have len: "length xs = length ys" by (rule list_all2_lengthD)
  define order where "order = completion_order (length (get_tasks sz xs)) sched"
  have so: "set order = {i. i * sz < length xs}"
    using sz by (auto simp: order_def completion_order_set get_tasks_length)
  have "j div sz \<in> set order" if "j < length ys" for j
  proof -
    have "(j div sz) * sz \<le> j" by (rule div_times_less_eq_dividend)
    with that len have "(j div sz) * sz < length xs" by linarith
    then show ?thesis by (simp add: so)
  qed
  then have "map (\<lambda>j. if j div sz \<in> set order then Some (ys ! j) else None) [0..<length ys] =
      map (\<lambda>j. Some (ys ! j)) [0..<length ys]"
    by (intro map_cong) auto
  also have "\<dots> = map Some (map (\<lambda>j. ys ! j) [0..<length ys])" by simp
  also have "\<dots> = map Some ys" by (simp only: map_nth)
  finally have fin: "map (\<lambda>j. if j div sz \<in> set order then Some (ys ! j) else None) [0..<length ys] =
      map Some ys" .
  from so have "set order \<subseteq> {i. i * sz < length xs}" by simp
  from pool_fold_success [OF sz all this] fin
  show ?thesis
    by (simp add: pool_map_def Let_def sz_def [symmetric] order_def [symmetric])
qed

subsection \<open>Pool.map when an item raises\<close>

lemma set_chunk_keeps_failure: "failure mr \<noteq> None \<Longrightarrow> failure (set_chunk sz i r mr) \<noteq> None"
  by (auto simp: set_chunk_def split: option.splits)

lemma fold_keeps_failure:
  "failure mr \<noteq> None \<Longrightarrow> failure (foldl (\<lambda>mr i. set_chunk sz i (g i) mr) mr order) \<noteq> None"
proof (induction order arbitrary: mr)
  case Nil
  then show ?case by simp
next
  case (Cons a order)
  from Cons.prems have "failure (set_chunk sz a (g a) mr) \<noteq> None"
    by (rule set_chunk_keeps_failure)
  then have "failure (foldl (\<lambda>mr i. set_chunk sz i (g i) mr) (set_chunk sz a (g a) mr) order) \<noteq> None"
    by (rule Cons.IH)
  then show ?case by simp
qed

lemma fold_gets_failure:
  assumes "i \<in> set order" and "g i = Inl e"
  shows "failure (foldl (\<lambda>mr i. set_chunk sz i (g i) mr) mr order) \<noteq> None"
proof -
  from assms(1) obtain pre post where o: "order = pre @ i # post"
    by (auto simp: in_set_conv_decomp)
  have "failure (set_chunk sz i (g i) mr') \<noteq> None" for mr' :: "'a map_result"
    using assms(2) by (auto simp: set_chunk_def split: option.splits)
  then have "failure (foldl (\<lambda>mr i. set_chunk sz i (g i) mr)
      (set_chunk sz i (g i) (foldl (\<lambda>mr i. set_chunk sz i (g i) mr) mr pre)) post) \<noteq> None"
    by (rule fold_keeps_failure)
  then show ?thesis
    by (simp add: o)
qed

lemma pool_map_failure:
  assumes n: "1 \<le> n" and x: "x \<in> set xs" and e: "f x = Inl e"
  shows "\<exists>e'. pool_map n sched f xs = Inl e'"
proof -
  define sz where "sz = chunksize n (length xs)"
  from x have ne: "xs \<noteq> []" by auto
  with n have sz: "0 < sz" by (simp add: sz_def chunksize_pos)
  from x obtain j where j: "j < length xs" "xs ! j = x" by (auto simp: in_set_conv_nth)
  define i where "i = j div sz"
  have lo: "i * sz \<le> j" unfolding i_def by (rule div_times_less_eq_dividend)
  have hi: "j < sz + i * sz" unfolding i_def using sz by (rule dividend_less_div_times)
  from lo j have "i * sz < length xs" by simp
  with sz have il: "i < length (get_tasks sz xs)" by (simp add: get_tasks_length)
  with sz have t: "get_tasks sz xs ! i = take sz (drop (i * sz) xs)" by (rule get_tasks_nth)
  have a1: "j - i * sz < sz" using lo hi by linarith
  have a2: "j - i * sz < length xs - i * sz" using lo j by linarith
  have "take sz (drop (i * sz) xs) ! (j - i * sz) = x"
    using a1 lo j by simp
  moreover have "j - i * sz < length (take sz (drop (i * sz) xs))"
    using a1 a2 by simp
  ultimately have "x \<in> set (take sz (drop (i * sz) xs))"
    using nth_mem [of "j - i * sz" "take sz (drop (i * sz) xs)"] by simp
  then have "x \<in> set (get_tasks sz xs ! i)"
    by (simp only: t)
  with e have "\<exists>e'. mapstar f (get_tasks sz xs ! i) = Inl e'"
    by (auto simp: mapstar_Inl_iff)
  then obtain e' where m: "mapstar f (get_tasks sz xs ! i) = Inl e'" ..
  from il have io: "i \<in> set (completion_order (length (get_tasks sz xs)) sched)"
    by (simp add: completion_order_set)
  from fold_gets_failure [OF io, of "\<lambda>i. mapstar f (get_tasks sz xs ! i)", OF m]
  show ?thesis
    by (auto simp: pool_map_def Let_def sz_def [symmetric] split: option.splits)
qed

section \<open>Properties of the json module\<close>

subsection \<open>The first exception of a run\<close>

lemma sequence_Inr_iff: "sequence rs = Inr xs \<longleftrightarrow> rs = map Inr xs"
proof (induction rs arbitrary: xs)
  case Nil
  show ?case by auto
next
  case (Cons r rs)
  show ?case
  proof (cases r)
    case (Inl e)
    then show ?thesis by (cases xs) auto
  next
    case (Inr x)
    then show ?thesis using Cons [of "tl xs"]
      by (cases xs) (auto split: sum.splits)
  qed
qed


subsection \<open>Integer literals\<close>





lemma canonical_digits_no_sign: "canonical_digits (c # ds) \<Longrightarrow> c \<noteq> 0x2D"
  by (auto simp: canonical_digits_def is_digit_def)

lemma canonical_literal_plain: "canonical_digits ds \<Longrightarrow> canonical_literal ds"
  by (cases ds) (auto simp: canonical_literal_def canonical_digits_def is_digit_def)

lemma canonical_literal_minus: "canonical_digits ds \<Longrightarrow> canonical_literal (0x2D # ds)"
  by (simp add: canonical_literal_def)


lemma scan_int_canonical:
  assumes "scan_int cs = Some (i, r)"
  shows "canonical_literal i \<and> length i + length r = length cs"
proof -
  have tw: "length (takeWhile is_digit xs) + length (dropWhile is_digit xs) = length xs" for xs
    using takeWhile_dropWhile_id [of is_digit xs] by (metis length_append)
  have cd: "canonical_digits (takeWhile is_digit (d # xs))" if "is_digit d" "d \<noteq> 0x30" for d xs
    using that by (auto simp: canonical_digits_def dest: set_takeWhileD)
  have c0: "canonical_digits [0x30]" by (simp add: canonical_digits_def is_digit_def)
  show ?thesis
  proof (cases "\<exists>r0. cs = 0x2D # r0")
    case True
    then obtain r0 where cs: "cs = 0x2D # r0" by blast
    with assms obtain d r' where r0: "r0 = d # r'" by (cases r0) (auto simp: scan_int_def)
    show ?thesis
    proof (cases "d = 0x30")
      case True
      with assms cs r0 have "i = 0x2D # [0x30]" "r = r'" by (auto simp: scan_int_def)
      with canonical_literal_minus [OF c0] cs r0 show ?thesis by simp
    next
      case False
      with assms cs r0 have d: "is_digit d" and i: "i = 0x2D # takeWhile is_digit r0"
        and r: "r = dropWhile is_digit r0"
        by (auto simp: scan_int_def split: if_splits)
      from canonical_literal_minus [OF cd [OF d False, of r']] tw [of r0] show ?thesis
        unfolding i r cs r0 by (simp del: takeWhile.simps dropWhile.simps)
    qed
  next
    case False
    with assms obtain d r' where cs: "cs = d # r'" "d \<noteq> 0x2D"
      by (cases cs) (auto simp: scan_int_def)
    show ?thesis
    proof (cases "d = 0x30")
      case True
      with assms cs have "i = [0x30]" "r = r'" by (auto simp: scan_int_def)
      with canonical_literal_plain [OF c0] cs show ?thesis by simp
    next
      case d0: False
      with assms cs have d: "is_digit d" and i: "i = takeWhile is_digit cs"
        and r: "r = dropWhile is_digit cs"
        by (auto simp: scan_int_def split: if_splits)
      from canonical_literal_plain [OF cd [OF d d0, of r']] tw [of cs] show ?thesis
        unfolding i r cs by (simp del: takeWhile.simps dropWhile.simps)
    qed
  qed
qed

subsection \<open>The tokens of a text\<close>

lemma scan_number_token:
  assumes "scan_number cs = Some (t, r)"
  shows "token_ok t \<and> token_length t + length r \<le> length cs"
proof -
  from assms obtain i r0 f r1 e where
    s: "scan_int cs = Some (i, r0)" "scan_frac r0 = (f, r1)" "scan_exp r1 = (e, r)"
    and t: "t = (if f = [] \<and> e = [] then IntLit i else Scalar (JFloat (i @ f @ e)))"
    by (auto simp: scan_number_def Let_def split: option.splits prod.splits if_splits)
  from scan_int_canonical [OF s(1)] scan_frac_shorter [OF s(2)] scan_exp_shorter [OF s(3)]
  show ?thesis by (simp add: t)
qed

lemma scan_constant_token:
  assumes "scan_constant cs = Some (t, r)"
  shows "token_ok t \<and> token_length t + length r \<le> length cs"
proof (cases "scan_number cs = Some (t, r)")
  case True
  then show ?thesis by (rule scan_number_token)
next
  case False
  with assms have "token_length t = 0 \<and> token_ok t"
    by (auto simp: scan_constant_def split: if_splits option.splits)
  with scan_constant_shorter [OF assms] show ?thesis by simp
qed

lemma tokens_ok:
  "(\<forall>t \<in> set (tokens s). token_ok t \<and> token_length t \<le> length s) \<and> length (tokens s) \<le> length s"
proof (induction s rule: tokens.induct)
  case 1
  show ?case by simp
next
  case (2 c cs)
  let ?P = "\<lambda>ts n. (\<forall>t \<in> set ts. token_ok t \<and> token_length t \<le> n) \<and> length ts \<le> n"
  have weaken: "?P ts n \<Longrightarrow> n \<le> m \<Longrightarrow> ?P ts m" for ts n m by auto
  have cons: "?P ts n \<Longrightarrow> token_ok t \<Longrightarrow> token_length t + n \<le> m \<Longrightarrow> n < m \<Longrightarrow> ?P (t # ts) m"
    for ts n m t by auto
  consider (ws) "is_ws c"
    | (delim) "\<not> is_ws c" "c = 0x7B \<or> c = 0x7D \<or> c = 0x5B \<or> c = 0x5D \<or> c = 0x2C \<or> c = 0x3A"
    | (str) "\<not> is_ws c" "c \<noteq> 0x7B" "c \<noteq> 0x7D" "c \<noteq> 0x5B" "c \<noteq> 0x5D" "c \<noteq> 0x2C" "c \<noteq> 0x3A" "c = 0x22"
    | (const) "\<not> is_ws c" "c \<noteq> 0x7B" "c \<noteq> 0x7D" "c \<noteq> 0x5B" "c \<noteq> 0x5D" "c \<noteq> 0x2C" "c \<noteq> 0x3A" "c \<noteq> 0x22"
    by blast
  then show ?case
  proof cases
    case ws
    with 2(1) show ?thesis by auto
  next
    case delim
    with 2(2-7) have "?P (tokens cs) (length cs)" by blast
    moreover from delim obtain t where "tokens (c # cs) = t # tokens cs" "token_ok t" "token_length t = 0"
      by auto
    ultimately show ?thesis by auto
  next
    case str
    show ?thesis
    proof (cases "scan_string [] cs")
      case None
      with str show ?thesis by simp
    next
      case (Some a)
      obtain x r where a: "a = (x, r)" by (cases a)
      from 2(8) [OF str Some a [symmetric]] have "?P (tokens r) (length r)" .
      moreover from scan_string_shorter Some a have "length r < length cs" by blast
      ultimately show ?thesis using str Some a by auto
    qed
  next
    case const
    show ?thesis
    proof (cases "scan_constant (c # cs)")
      case None
      with const show ?thesis by simp
    next
      case (Some a)
      obtain t r where a: "a = (t, r)" by (cases a)
      from 2(9) [OF const Some a [symmetric]] have "?P (tokens r) (length r)" .
      moreover from scan_constant_token Some a
      have "token_ok t \<and> token_length t + length r \<le> length (c # cs)" by blast
      moreover from scan_constant_shorter Some a have "length r < length (c # cs)" by blast
      ultimately show ?thesis using const Some a by auto
    qed
  qed
qed

subsection \<open>What the parser keeps\<close>









subsection \<open>Which exception\<close>

lemma open_value_error:
  assumes "open_value py t st = Inl err"
  shows "err = JSONDecodeError \<or>
         err = ValueError \<and> exceeds_max_str_digits py (token_length t) \<or>
         err = RecursionError \<and> max_depth py \<le> length st"
proof (cases t)
  case (IntLit l)
  have "literal_digits l \<le> length l" by (auto simp: literal_digits_def split: list.splits)
  with assms IntLit show ?thesis
    by (auto simp: exceeds_max_str_digits_def split: if_splits)
qed (use assms in \<open>auto split: if_splits\<close>)

lemma read_key_error: "read_key t st = Inl err \<Longrightarrow> err = JSONDecodeError"
  by (auto elim!: read_key.elims)

lemma step_cases:
  "step py e st t = open_value py t st \<or> step py e st t = read_key t st \<or>
   step py e st t = Inl JSONDecodeError \<or> (\<exists>x. step py e st t = Inr x)"
  by (cases "(py, e, st, t)" rule: step.cases) simp_all

lemma step_error:
  assumes "step py e st t = Inl err"
  shows "err = JSONDecodeError \<or>
         err = ValueError \<and> exceeds_max_str_digits py (token_length t) \<or>
         err = RecursionError \<and> max_depth py \<le> length st"
proof -
  from step_cases [of py e st t] assms consider
      "open_value py t st = Inl err" | "read_key t st = Inl err" | "err = JSONDecodeError"
    by auto
  then show ?thesis
  proof cases
    case 1
    then show ?thesis by (rule open_value_error)
  next
    case 2
    then show ?thesis by (simp add: read_key_error)
  next
    case 3
    then show ?thesis by simp
  qed
qed

lemma open_value_depth: "open_value py t st = Inr (e', st') \<Longrightarrow> length st' \<le> Suc (length st)"
  by (cases t) (auto split: if_splits)

lemma read_key_depth: "read_key t st = Inr (e', st') \<Longrightarrow> length st' \<le> Suc (length st)"
  by (auto elim!: read_key.elims)

lemma step_depth:
  assumes "step py e st t = Inr (e', st')"
  shows "length st' \<le> Suc (length st)"
  using assms
  by (cases "(py, e, st, t)" rule: step.cases)
    (auto dest: open_value_depth read_key_depth split: if_splits)

lemma parse_error:
  assumes "parse py e st ts = Inl err"
  shows "err = JSONDecodeError \<or> err = ValueError \<or> err = RecursionError"
  using assms
proof (induction ts arbitrary: e st)
  case Nil
  then show ?case by (cases "(py, e, st, [] :: token list)" rule: parse.cases) auto
next
  case (Cons t ts)
  show ?case
  proof (cases "step py e st t")
    case (Inl x)
    with Cons.prems step_error [of py e st t err] show ?thesis by auto
  next
    case (Inr a)
    with Cons show ?thesis by (cases a) auto
  qed
qed

text \<open>A run that cannot reach a limit: the tokens left are fewer than the levels left, and
  no literal is long enough.\<close>

lemma parse_below_limits:
  assumes "length st + length ts \<le> max_depth py"
    and "\<forall>t \<in> set ts. \<not> exceeds_max_str_digits py (token_length t)"
    and "parse py e st ts = Inl err"
  shows "err = JSONDecodeError"
  using assms
proof (induction ts arbitrary: e st)
  case Nil
  then show ?case by (cases "(py, e, st, [] :: token list)" rule: parse.cases) auto
next
  case (Cons t ts)
  show ?case
  proof (cases "step py e st t")
    case (Inl x)
    with Cons.prems step_error [of py e st t err] show ?thesis by auto
  next
    case (Inr a)
    obtain e' st' where a: "a = (e', st')" by (cases a)
    from step_depth Inr a have "length st' \<le> Suc (length st)" by blast
    with Cons.prems(1) have "length st' + length ts \<le> max_depth py" by simp
    moreover from Cons.prems(2) have "\<forall>t \<in> set ts. \<not> exceeds_max_str_digits py (token_length t)"
      by simp
    moreover from Cons.prems(3) Inr a have "parse py e' st' ts = Inl err" by simp
    ultimately show ?thesis by (rule Cons.IH)
  qed
qed

lemma exceeds_mono:
  "exceeds_max_str_digits py n \<Longrightarrow> n \<le> m \<Longrightarrow> exceeds_max_str_digits py m"
  by (auto simp: exceeds_max_str_digits_def)

lemma json_loads_error:
  assumes "json_loads py s = Inl err"
  shows "err = JSONDecodeError \<or> err = ValueError \<or> err = RecursionError"
  using assms unfolding json_loads_def by (rule parse_error)

text \<open>A text no longer than the limits is either decoded or not JSON.\<close>

lemma json_loads_below_limits:
  assumes "length s \<le> max_depth py" "\<not> exceeds_max_str_digits py (length s)"
    and "json_loads py s = Inl err"
  shows "err = JSONDecodeError"
proof -
  from tokens_ok [of s] have len: "length (tokens s) \<le> length s"
    and tl: "\<forall>t \<in> set (tokens s). token_length t \<le> length s" by blast+
  from len assms(1) have "length ([] :: frame list) + length (tokens s) \<le> max_depth py" by simp
  moreover from tl assms(2) have "\<forall>t \<in> set (tokens s). \<not> exceeds_max_str_digits py (token_length t)"
    by (blast dest: exceeds_mono)
  moreover from assms(3) have "parse py Value [] (tokens s) = Inl err" by (simp add: json_loads_def)
  ultimately show ?thesis by (rule parse_below_limits)
qed

subsection \<open>A literal of nines\<close>

lemma scan_number_nines:
  assumes "0 < n" "r = [] \<or> hd r = 0x2C"
  shows "scan_number (replicate n 0x39 @ r) = Some (IntLit (replicate n 0x39), r)"
proof -
  obtain m where n: "n = Suc m" using assms(1) by (cases n) auto
  have d: "is_digit 0x39" by (simp add: is_digit_def)
  have nd: "\<not> is_digit 0x2C" by (simp add: is_digit_def)
  from assms(2) nd have tr: "takeWhile is_digit r = []" "dropWhile is_digit r = r"
    by (cases r; auto)+
  have tw: "takeWhile is_digit (replicate k 0x39 @ r) = replicate k 0x39" for k
    using d tr by (induction k) simp_all
  have dw: "dropWhile is_digit (replicate k 0x39 @ r) = r" for k
    using d tr by (induction k) simp_all
  have "scan_int (0x39 # replicate m 0x39 @ r) = Some (0x39 # replicate m 0x39, r)"
    using tw [of m] dw [of m] d by (simp add: scan_int_def)
  then have si: "scan_int (replicate n 0x39 @ r) = Some (replicate n 0x39, r)"
    by (simp add: n)
  from assms(2) have sf: "scan_frac r = ([], r)"
    by (cases r; cases "tl r"; auto simp: scan_frac_def)
  from assms(2) have se: "scan_exp r = ([], r)"
    by (cases r; auto simp: scan_exp_def)
  show ?thesis by (simp add: scan_number_def si sf se)
qed

lemma tokens_nines:
  assumes "0 < n" "r = [] \<or> hd r = 0x2C"
  shows "tokens (replicate n 0x39 @ r) = IntLit (replicate n 0x39) # tokens r"
proof -
  obtain m where n: "n = Suc m" using assms(1) by (cases n) auto
  have sc: "scan_constant (replicate n 0x39 @ r) = Some (IntLit (replicate n 0x39), r)"
    using scan_number_nines [OF assms]
    by (simp add: scan_constant_def starts_with_def ustr_def n)
  have "tokens (0x39 # replicate m 0x39 @ r) = IntLit (replicate n 0x39) # tokens r"
    using sc unfolding n by (subst tokens.simps) (simp add: is_ws_def)
  then show ?thesis by (simp add: n)
qed

subsection \<open>Nesting beyond the limit\<close>

lemma tokens_brackets: "tokens (replicate k 0x5B @ r) = replicate k LBracket @ tokens r"
  by (induction k) (simp_all add: is_ws_def)

lemma step_open_bracket:
  assumes "e = Value \<or> e = FirstItem"
  shows "step py e st LBracket = open_value py LBracket st"
  using assms by (cases "(py, e, st, LBracket)" rule: step.cases) auto

lemma parse_brackets:
  assumes "e = Value \<or> e = FirstItem"
  shows "parse py e st (replicate k LBracket @ [LBracket]) =
           (if length st + k < max_depth py then Inl JSONDecodeError else Inl RecursionError)"
  using assms
proof (induction k arbitrary: e st)
  case 0
  then show ?case by (simp add: step_open_bracket)
next
  case (Suc k)
  show ?case
  proof (cases "max_depth py \<le> length st")
    case True
    with Suc.prems show ?thesis by (simp add: step_open_bracket)
  next
    case False
    with Suc.prems Suc.IH [of FirstItem "InArray [] # st"] show ?thesis
      by (simp add: step_open_bracket)
  qed
qed

text \<open>Opening brackets, one more than the interpreter lets the decoder enter: the text is
  not JSON, and the decoder raises \<open>RecursionError\<close> before it finds that out.\<close>

lemma json_loads_too_deep:
  "json_loads py (replicate (Suc (max_depth py)) 0x5B) = Inl RecursionError"
proof -
  have "tokens (replicate (Suc (max_depth py)) 0x5B) = replicate (max_depth py) LBracket @ [LBracket]"
    using tokens_brackets [of "Suc (max_depth py)" "[]"] by (simp add: replicate_append_same)
  then show ?thesis
    using parse_brackets [of Value py "[]" "max_depth py"] by (simp add: json_loads_def)
qed

section \<open>Properties of convert_jsonl_for_search\<close>

lemma printable_Nil [simp]: "printable []"
  by (simp add: printable_def)

lemma printable_Cons [simp]: "printable (c # s) \<longleftrightarrow> 0x20 \<le> c \<and> c \<le> 0x7E \<and> printable s"
  by (auto simp: printable_def)

lemma printable_append [simp]: "printable (s @ t) \<longleftrightarrow> printable s \<and> printable t"
  by (auto simp: printable_def)

lemma printable_concat: "(\<And>s. s \<in> set ss \<Longrightarrow> printable s) \<Longrightarrow> printable (concat ss)"
  by (auto simp: printable_def)

lemma printable_join:
  "printable sep \<Longrightarrow> (\<And>s. s \<in> set ss \<Longrightarrow> printable s) \<Longrightarrow> printable (join sep ss)"
  by (induction sep ss rule: join.induct) auto

lemma hex_digit_printable: "n < 16 \<Longrightarrow> 0x20 \<le> hex_digit n \<and> hex_digit n \<le> 0x7E"
  by (auto simp: hex_digit_def)

lemma u_escape_printable: "printable (u_escape n)"
  by (simp add: u_escape_def hex_digit_printable)

lemma escape_char_printable: "printable (escape_char c)"
  by (simp add: escape_char_def u_escape_printable)

lemma encode_string_printable: "printable (encode_string s)"
  by (auto simp: encode_string_def intro!: printable_concat escape_char_printable)

lemma nat_digits_printable: "printable (nat_digits n)"
proof (induction n rule: nat_digits.induct)
  case (1 n)
  show ?case
  proof (cases "n < 10")
    case True
    then show ?thesis by (subst nat_digits.simps) simp
  next
    case False
    have "n mod 10 < 10" by simp
    then have "48 + n mod 10 \<le> 126" by linarith
    with False 1 show ?thesis by (subst nat_digits.simps) simp
  qed
qed

lemma str_int_printable: "printable (str_int i)"
  by (simp add: str_int_def nat_digits_printable)

lemma sequence_printable:
  assumes "sequence rs = Inr parts" "\<And>s. Inr s \<in> set rs \<Longrightarrow> printable s"
  shows "\<forall>s \<in> set parts. printable s"
proof -
  from assms(1) have "rs = map Inr parts" by (simp add: sequence_Inr_iff)
  with assms(2) show ?thesis by auto
qed

lemma json_dumps_at_printable:
  assumes "\<And>l. printable (float_repr py l)"
  shows "json_dumps_at py depth v = Inr s \<Longrightarrow> printable s"
proof (induction v arbitrary: depth s)
  case JNull
  then show ?case by (auto simp: ustr_def)
next
  case (JBool b)
  then show ?case by (auto simp: ustr_def)
next
  case (JInt i)
  then show ?case by (auto simp: str_int_printable split: if_splits)
next
  case (JFloat l)
  then show ?case by (auto simp: assms)
next
  case (JStr s)
  then show ?case by (auto simp: encode_string_printable)
next
  case (JArr xs)
  from JArr.prems obtain parts where
    q: "sequence (map (json_dumps_at py (Suc depth)) xs) = Inr parts"
    and s: "s = ustr ''['' @ join (ustr '', '') parts @ ustr '']''"
    by (auto split: if_splits sum.splits)
  have "\<forall>p \<in> set parts. printable p"
  proof (rule sequence_printable [OF q])
    fix p assume "Inr p \<in> set (map (json_dumps_at py (Suc depth)) xs)"
    then obtain x where "x \<in> set xs" "json_dumps_at py (Suc depth) x = Inr p" by auto
    then show "printable p" by (rule JArr.IH)
  qed
  then have "printable (join (ustr '', '') parts)"
    by (intro printable_join) (auto simp: ustr_def)
  then show ?case by (simp add: s ustr_def)
next
  case (JObj kvs)
  let ?f = "\<lambda>kv. case json_dumps_at py (Suc depth) (snd kv) of
                    Inl e \<Rightarrow> Inl e
                  | Inr s \<Rightarrow> Inr (encode_string (fst kv) @ ustr '': '' @ s)"
  from JObj.prems obtain parts where
    q: "sequence (map ?f kvs) = Inr parts"
    and s: "s = ustr ''{'' @ join (ustr '', '') parts @ ustr ''}''"
    by (auto split: if_splits sum.splits)
  have "\<forall>p \<in> set parts. printable p"
  proof (rule sequence_printable [OF q])
    fix p assume "Inr p \<in> set (map ?f kvs)"
    then obtain kv where kv: "kv \<in> set kvs" and f: "?f kv = Inr p" by auto
    from f obtain s' where s': "json_dumps_at py (Suc depth) (snd kv) = Inr s'"
      and p: "p = encode_string (fst kv) @ ustr '': '' @ s'"
      by (auto split: sum.splits)
    have sn: "snd kv \<in> Basic_BNFs.snds kv" by (cases kv) simp
    from JObj.IH [OF kv sn s'] have "printable s'" .
    then show "printable p" by (simp add: p encode_string_printable ustr_def)
  qed
  then have "printable (join (ustr '', '') parts)"
    by (intro printable_join) (auto simp: ustr_def)
  then show ?case by (simp add: s ustr_def)
qed

lemma process_jsonl_line_printable:
  assumes "\<And>l. printable (float_repr py l)" "process_jsonl_line py line = Inr row"
  shows "printable row"
proof -
  from assms(2) obtain i c where
    "json_dumps_at py 0 (JObj [(ustr ''id'', i), (ustr ''title'', c)]) = Inr row"
    unfolding process_jsonl_line_def and_then_Inr_iff json_dumps_def by blast
  then show ?thesis
    by (rule json_dumps_at_printable [of py, OF assms(1)])
qed

subsection \<open>Lines of a file\<close>

lemma universal_newlines_id: "0x0D \<notin> set s \<Longrightarrow> universal_newlines s = s"
  by (induction s rule: universal_newlines.induct) auto

lemma split_lines_row:
  "0x0A \<notin> set row \<Longrightarrow>
     split_lines cur (row @ 0x0A # rest) = (rev cur @ row @ [0x0A]) # split_lines [] rest"
  by (induction row arbitrary: cur) auto

lemma split_lines_rows:
  "(\<And>r. r \<in> set rows \<Longrightarrow> 0x0A \<notin> set r) \<Longrightarrow>
     split_lines [] (concat (map (\<lambda>r. r @ [0x0A]) rows)) = map (\<lambda>r. r @ [0x0A]) rows"
  by (induction rows) (simp_all add: split_lines_row)

lemma printable_no_break: "printable s \<Longrightarrow> 0x0A \<notin> set s \<and> 0x0D \<notin> set s"
  by (auto simp: printable_def)

lemma file_lines_rows:
  assumes "\<And>r. r \<in> set rows \<Longrightarrow> printable r"
  shows "file_lines (concat (map (\<lambda>r. r @ [0x0A]) rows)) = map (\<lambda>r. r @ [0x0A]) rows"
proof -
  have "0x0D \<notin> set (concat (map (\<lambda>r. r @ [0x0A]) rows))"
    using assms by (auto dest: printable_no_break)
  then have "universal_newlines (concat (map (\<lambda>r. r @ [0x0A]) rows)) = concat (map (\<lambda>r. r @ [0x0A]) rows)"
    by (rule universal_newlines_id)
  moreover have "split_lines [] (concat (map (\<lambda>r. r @ [0x0A]) rows)) = map (\<lambda>r. r @ [0x0A]) rows"
    using assms by (intro split_lines_rows) (auto dest: printable_no_break)
  ultimately show ?thesis by (simp add: file_lines_def)
qed

subsection \<open>Writing the rows\<close>

lemma write_rows_all:
  "write_rows f (map Some rows) d =
     (None, d\<lparr>data := (data d)(f := data d f @ concat (map (\<lambda>r. r @ [0x0A]) rows))\<rparr>)"
proof (induction rows arbitrary: d)
  case Nil
  show ?case by simp
next
  case (Cons r rows)
  have "write_text f (r @ [0x0A]) d
          \<lparr>data := (data (write_text f (r @ [0x0A]) d))
             (f := data (write_text f (r @ [0x0A]) d) f @ concat (map (\<lambda>r. r @ [0x0A]) rows))\<rparr> =
        d\<lparr>data := (data d)(f := data d f @ concat (map (\<lambda>r. r @ [0x0A]) (r # rows)))\<rparr>"
    unfolding write_text_def
    by (rule disk.equality) (simp_all add: fun_eq_iff)
  then show ?case
    by (simp only: list.map write_rows.simps Cons.IH)
qed

subsection \<open>Opening the files\<close>

lemma open_write_result:
  assumes "open_write p d = Inr (f, d1)"
  shows "data d1 f = [] \<and> (\<forall>g. g \<noteq> f \<longrightarrow> data d1 g = data d g) \<and>
         map_of (tree d1) f = Some RegularFile"
proof -
  from assms obtain q where q: "follow 40 (tree d) p = Inr q"
    by (auto simp: open_write_def and_then_Inr_iff)
  with assms consider
    (old) "map_of (tree d) f = Some RegularFile" "d1 = d\<lparr>data := (data d)(f := [])\<rparr>" |
    (new) "map_of (tree d) f = None" "d1 = d\<lparr>tree := tree d @ [(f, RegularFile)], data := (data d)(f := [])\<rparr>"
    by (auto simp: open_write_def split: option.splits node.splits)
  then show ?thesis
  proof cases
    case old
    then show ?thesis by simp
  next
    case new
    then show ?thesis using map_of_snoc_new [of "tree d" f RegularFile] by simp
  qed
qed

lemma mapstar_total:
  assumes "\<forall>x \<in> set xs. \<exists>y. f x = Inr y"
  shows "\<exists>ys. mapstar f xs = Inr ys"
proof (cases "mapstar f xs")
  case (Inl e)
  then have "\<exists>x \<in> set xs. \<exists>e. f x = Inl e" using mapstar_Inl_iff [of f xs] by blast
  with assms show ?thesis by auto
next
  case (Inr ys)
  then show ?thesis by blast
qed

subsection \<open>convert_jsonl_for_search\<close>

lemma convert_success:
  assumes r: "open_read jsonl_file d = Inr f_in"
    and w: "open_write output_path d = Inr (f_out, d1)"
    and n: "1 \<le> processes"
    and m: "mapstar (process_jsonl_line py) (file_lines (data d1 f_in)) = Inr rows"
  shows "convert_with_pool processes sched py jsonl_file output_path d =
           (None, d1\<lparr>data := (data d1)(f_out := concat (map (\<lambda>row. row @ [0x0A]) rows))\<rparr>)"
proof -
  from open_write_result [OF w] have e: "data d1 f_out = []" by simp
  from n have n': "\<not> processes < 1" by simp
  from pool_map_success [OF n m]
  have p: "pool_map processes sched (process_jsonl_line py) (file_lines (data d1 f_in)) =
      Inr (map Some rows)" .
  show ?thesis
    using n by (simp add: convert_with_pool_def r w p write_rows_all e)
qed

lemma convert_lines:
  assumes r: "open_read jsonl_file d = Inr f_in"
    and w: "open_write output_path d = Inr (f_out, d1)"
    and ne: "f_in \<noteq> f_out"
    and all: "\<forall>l \<in> set (file_lines (data d f_in)). \<exists>row. process_jsonl_line py l = Inr row"
    and pr: "\<And>l. printable (float_repr py l)"
  shows "\<exists>d' rows.
           (\<forall>processes sched. 1 \<le> processes \<longrightarrow>
              convert_with_pool processes sched py jsonl_file output_path d = (None, d')) \<and>
           list_all2 (\<lambda>l row. process_jsonl_line py l = Inr row)
             (file_lines (data d f_in)) rows \<and>
           file_lines (data d' f_out) = map (\<lambda>row. row @ [0x0A]) rows"
proof -
  from open_write_result [OF w] ne have same: "data d1 f_in = data d f_in" by simp
  from mapstar_total [OF all] obtain rows where
    m: "mapstar (process_jsonl_line py) (file_lines (data d f_in)) = Inr rows" ..
  then have l2: "list_all2 (\<lambda>l row. process_jsonl_line py l = Inr row)
      (file_lines (data d f_in)) rows"
    by (simp add: mapstar_Inr_iff)
  have "printable row" if "row \<in> set rows" for row
  proof -
    from that l2 obtain l where "process_jsonl_line py l = Inr row"
      by (auto simp: list_all2_conv_all_nth in_set_conv_nth)
    with pr show ?thesis by (rule process_jsonl_line_printable)
  qed
  then have fl: "file_lines (concat (map (\<lambda>row. row @ [0x0A]) rows)) = map (\<lambda>row. row @ [0x0A]) rows"
    by (rule file_lines_rows)
  define d' where "d' = d1\<lparr>data := (data d1)(f_out := concat (map (\<lambda>row. row @ [0x0A]) rows))\<rparr>"
  have "convert_with_pool processes sched py jsonl_file output_path d = (None, d')"
    if "1 \<le> processes" for processes sched
    unfolding d'_def using r w that by (rule convert_success) (simp add: same m)
  moreover have "file_lines (data d' f_out) = map (\<lambda>row. row @ [0x0A]) rows"
    by (simp add: d'_def fl)
  ultimately have "(\<forall>processes sched. 1 \<le> processes \<longrightarrow>
              convert_with_pool processes sched py jsonl_file output_path d = (None, d')) \<and>
           list_all2 (\<lambda>l row. process_jsonl_line py l = Inr row)
             (file_lines (data d f_in)) rows \<and>
           file_lines (data d' f_out) = map (\<lambda>row. row @ [0x0A]) rows"
    using l2 by simp
  then show ?thesis by (intro exI)
qed


text \<open>Claim C6, as amended. The output lines are in input order whatever the order in
  which the workers finish: the lines of the output file are, one for one and in the
  same order, the transformed lines of the input file, each followed by a line feed.\<close>

theorem convert_keeps_order:
  assumes "open_read jsonl_file d = Inr f_in"
    and "open_write output_path d = Inr (f_out, d1)"
    and "f_in \<noteq> f_out"
    and "\<forall>l \<in> set (file_lines (data d f_in)). \<exists>row. process_jsonl_line py l = Inr row"
    and "\<And>l. printable (float_repr py l)"
  shows "\<exists>d' rows.
           convert_jsonl_for_search sched py jsonl_file output_path d = (None, d') \<and>
           list_all2 (\<lambda>l row. process_jsonl_line py l = Inr row)
             (file_lines (data d f_in)) rows \<and>
           file_lines (data d' f_out) = map (\<lambda>row. row @ [0x0A]) rows"
proof -
  from convert_lines [OF assms] obtain d' rows where
    "(\<forall>processes sched. 1 \<le> processes \<longrightarrow>
          convert_with_pool processes sched py jsonl_file output_path d = (None, d')) \<and>
     list_all2 (\<lambda>l row. process_jsonl_line py l = Inr row) (file_lines (data d f_in)) rows \<and>
     file_lines (data d' f_out) = map (\<lambda>row. row @ [0x0A]) rows"
    by (elim exE)
  then have
    c: "\<forall>processes sched. 1 \<le> processes \<longrightarrow>
          convert_with_pool processes sched py jsonl_file output_path d = (None, d')" and
    l2: "list_all2 (\<lambda>l row. process_jsonl_line py l = Inr row) (file_lines (data d f_in)) rows" and
    fl: "file_lines (data d' f_out) = map (\<lambda>row. row @ [0x0A]) rows"
    by simp_all
  from c have "convert_jsonl_for_search sched py jsonl_file output_path d = (None, d')"
    by (simp add: convert_jsonl_for_search_def)
  with l2 fl have "convert_jsonl_for_search sched py jsonl_file output_path d = (None, d') \<and>
           list_all2 (\<lambda>l row. process_jsonl_line py l = Inr row)
             (file_lines (data d f_in)) rows \<and>
           file_lines (data d' f_out) = map (\<lambda>row. row @ [0x0A]) rows"
    by simp
  then show ?thesis by (intro exI)
qed

text \<open>Claim C10. The output file is opened, and so created or emptied, before any line
  is transformed, and nothing is written before every line has been transformed. When a
  line that is read from the input raises, the call ends in an exception, and the disk it
  leaves is the one right after the output was opened: the output file exists and is
  empty, whatever it held before.\<close>

theorem convert_failure_leaves_empty_output:
  assumes r: "open_read jsonl_file d = Inr f_in"
    and w: "open_write output_path d = Inr (f_out, d1)"
    and n: "1 \<le> processes"
    and bad: "\<exists>l \<in> set (file_lines (data d1 f_in)). \<exists>e. process_jsonl_line py l = Inl e"
  shows "\<exists>e. convert_with_pool processes sched py jsonl_file output_path d = (Some e, d1) \<and>
             map_of (tree d1) f_out = Some RegularFile \<and> data d1 f_out = []"
proof -
  from bad obtain l e where l: "l \<in> set (file_lines (data d1 f_in))"
    and e: "process_jsonl_line py l = Inl e" by (elim bexE exE)
  from pool_map_failure
    [where f = "process_jsonl_line py" and x = l and sched = sched, OF n l e]
  obtain e' where
    p: "pool_map processes sched (process_jsonl_line py) (file_lines (data d1 f_in)) = Inl e'"
    by (elim exE)
  have "convert_with_pool processes sched py jsonl_file output_path d = (Some e', d1)"
    using n by (simp add: convert_with_pool_def r w p)
  with open_write_result [OF w]
  have "convert_with_pool processes sched py jsonl_file output_path d = (Some e', d1) \<and>
      map_of (tree d1) f_out = Some RegularFile \<and> data d1 f_out = []"
    by simp
  then show ?thesis by (intro exI)
qed

section \<open>Properties of process_jsonl_line\<close>







lemma literal_digits_nines: "0 < n \<Longrightarrow> literal_digits (replicate n 0x39) = n"
  by (cases n) (simp_all add: literal_digits_def)



text \<open>Claim C9, as amended. A line that \<^verbatim>\<open>json.loads\<close> does not decode makes the
  transform raise what \<^verbatim>\<open>json.loads\<close> raises: \<open>JSONDecodeError\<close>, or, when the decoder
  meets a limit of the interpreter before it meets anything that is not JSON,
  \<open>ValueError\<close> (an integer literal of too many digits) or \<open>RecursionError\<close>
  (containers nested too deep); it is \<open>JSONDecodeError\<close> for every line that is no
  longer than these two limits. A line that decodes to an object without the key
  \<^verbatim>\<open>id\<close> raises \<open>KeyError\<close> for \<^verbatim>\<open>id\<close>, and one with \<^verbatim>\<open>id\<close> but without
  \<^verbatim>\<open>contents\<close> raises \<open>KeyError\<close> for \<^verbatim>\<open>contents\<close>. In none of these cases is a line
  produced.\<close>

theorem process_jsonl_line_raises:
  "((\<nexists>v. json_loads py line = Inr v) \<longrightarrow>
      (\<exists>e. json_loads py line = Inl e \<and> process_jsonl_line py line = Inl e \<and>
           (e = JSONDecodeError \<or> e = ValueError \<or> e = RecursionError)) \<and>
      (length line \<le> max_depth py \<and> \<not> exceeds_max_str_digits py (length line) \<longrightarrow>
         process_jsonl_line py line = Inl JSONDecodeError)) \<and>
   (json_loads py line = Inr (JObj kvs) \<and> map_of kvs (ustr ''id'') = None \<longrightarrow>
      process_jsonl_line py line = Inl (KeyError (ustr ''id''))) \<and>
   (json_loads py line = Inr (JObj kvs) \<and> map_of kvs (ustr ''id'') \<noteq> None \<and>
    map_of kvs (ustr ''contents'') = None \<longrightarrow>
      process_jsonl_line py line = Inl (KeyError (ustr ''contents'')))"
proof (intro conjI impI)
  assume "\<nexists>v. json_loads py line = Inr v"
  then obtain e where e: "json_loads py line = Inl e" by (cases "json_loads py line") auto
  then have "process_jsonl_line py line = Inl e"
    by (simp add: process_jsonl_line_def and_then_def)
  with e json_loads_error [OF e]
  show "\<exists>e. json_loads py line = Inl e \<and> process_jsonl_line py line = Inl e \<and>
           (e = JSONDecodeError \<or> e = ValueError \<or> e = RecursionError)"
    by blast
next
  assume "\<nexists>v. json_loads py line = Inr v"
    and b: "length line \<le> max_depth py \<and> \<not> exceeds_max_str_digits py (length line)"
  then obtain e where e: "json_loads py line = Inl e" by (cases "json_loads py line") auto
  from b have "length line \<le> max_depth py" "\<not> exceeds_max_str_digits py (length line)"
    by simp_all
  from json_loads_below_limits [OF this e] e
  show "process_jsonl_line py line = Inl JSONDecodeError"
    by (simp add: process_jsonl_line_def and_then_def)
next
  assume "json_loads py line = Inr (JObj kvs) \<and> map_of kvs (ustr ''id'') = None"
  then show "process_jsonl_line py line = Inl (KeyError (ustr ''id''))"
    by (simp add: process_jsonl_line_def and_then_def)
next
  assume "json_loads py line = Inr (JObj kvs) \<and> map_of kvs (ustr ''id'') \<noteq> None \<and>
    map_of kvs (ustr ''contents'') = None"
  then show "process_jsonl_line py line = Inl (KeyError (ustr ''contents''))"
    by (auto simp: process_jsonl_line_def and_then_def)
qed

text \<open>Three lines that raise.\<close>

theorem process_jsonl_line_raises_witness:
  "process_jsonl_line demo_py (ustr ''not json'') = Inl JSONDecodeError \<and>
   process_jsonl_line demo_py (ustr ''{\"contents\": \"c\"}'') = Inl (KeyError (ustr ''id'')) \<and>
   process_jsonl_line demo_py (ustr ''{\"id\": \"x2\"}'') = Inl (KeyError (ustr ''contents''))"
proof -
  have a: "\<nexists>v. json_loads demo_py (ustr ''not json'') = Inr v"
  proof -
    have "json_loads demo_py (ustr ''not json'') = Inl JSONDecodeError" by code_simp
    then show ?thesis by simp
  qed
  have a': "length (ustr ''not json'') \<le> max_depth demo_py \<and>
      \<not> exceeds_max_str_digits demo_py (length (ustr ''not json''))"
    by (simp add: demo_py_def ustr_def exceeds_max_str_digits_def)
  have b: "json_loads demo_py (ustr ''{\"contents\": \"c\"}'') = Inr (JObj [(ustr ''contents'', JStr (ustr ''c''))]) \<and>
      map_of [(ustr ''contents'', JStr (ustr ''c''))] (ustr ''id'') = None"
    by code_simp
  have c: "json_loads demo_py (ustr ''{\"id\": \"x2\"}'') = Inr (JObj [(ustr ''id'', JStr (ustr ''x2''))]) \<and>
      map_of [(ustr ''id'', JStr (ustr ''x2''))] (ustr ''id'') \<noteq> None \<and>
      map_of [(ustr ''id'', JStr (ustr ''x2''))] (ustr ''contents'') = None"
    by code_simp
  from a a' process_jsonl_line_raises [of demo_py "ustr ''not json''"]
  have 1: "process_jsonl_line demo_py (ustr ''not json'') = Inl JSONDecodeError" by blast
  from b process_jsonl_line_raises [of demo_py "ustr ''{\"contents\": \"c\"}''" "[(ustr ''contents'', JStr (ustr ''c''))]"]
  have 2: "process_jsonl_line demo_py (ustr ''{\"contents\": \"c\"}'') = Inl (KeyError (ustr ''id''))"
    by blast
  from c process_jsonl_line_raises [of demo_py "ustr ''{\"id\": \"x2\"}''" "[(ustr ''id'', JStr (ustr ''x2''))]"]
  have 3: "process_jsonl_line demo_py (ustr ''{\"id\": \"x2\"}'') = Inl (KeyError (ustr ''contents''))"
    by blast
  from 1 2 3 show ?thesis by (intro conjI)
qed

text \<open>Claim C9 as the specification states it (a line that is not valid JSON raises a
  JSON decode error) fails on the beginning of an array that holds an integer of 4301
  digits and is never closed. The line is not JSON, and an interpreter without the digit
  limit rejects it with \<open>JSONDecodeError\<close>; under the default limit of 4300 digits the
  decoder gives up at the integer, before it finds the array unclosed, and the transform
  raises \<open>ValueError\<close>, which is neither a JSON decode error nor a missing-key error.\<close>

theorem process_jsonl_line_open_array_counterexample:
  "json_loads demo_py_unlimited open_array_line = Inl JSONDecodeError \<and>
   json_loads demo_py open_array_line = Inl ValueError \<and>
   process_jsonl_line demo_py open_array_line = Inl ValueError \<and>
   process_jsonl_line demo_py open_array_line \<noteq> Inl JSONDecodeError"
proof -
  have h: "([] :: pystr) = [] \<or> hd ([] :: pystr) = 0x2C" by simp
  have "tokens (replicate 4301 0x39 @ []) = IntLit (replicate 4301 0x39) # tokens []"
    by (rule tokens_nines [OF _ h]) simp
  then have t: "tokens open_array_line = [LBracket, IntLit (replicate 4301 0x39)]"
    by (simp add: open_array_line_def is_ws_def)
  have a: "json_loads demo_py_unlimited open_array_line = Inl JSONDecodeError"
    by (simp add: json_loads_def t demo_py_unlimited_def exceeds_max_str_digits_def)
  have b: "json_loads demo_py open_array_line = Inl ValueError"
    by (simp add: json_loads_def t demo_py_def exceeds_max_str_digits_def literal_digits_nines)
  from a b show ?thesis by (simp add: process_jsonl_line_def and_then_def)
qed

section \<open>convert_jsonl_for_search on the example disks\<close>

lemma demo_repr_printable: "printable (float_repr demo_py l)"
  by (simp add: demo_py_def demo_repr_def printable_def)

lemma demo_open_read: "open_read [''in.jsonl''] demo_disk = Inr [''in.jsonl'']"
  by (simp add: open_read_def demo_disk_def numeral_eq_Suc)

lemma demo_open_write:
  "open_write [''out.jsonl''] demo_disk =
     Inr ([''out.jsonl''], demo_disk\<lparr>data := (data demo_disk)([''out.jsonl''] := [])\<rparr>)"
  by (simp add: open_write_def demo_disk_def numeral_eq_Suc)

lemma demo_lines:
  "file_lines (data demo_disk [''in.jsonl'']) =
     [ustr ''{\"id\": \"x1\", \"contents\": \"a caption\"}'' @ [0x0A],
      ustr ''{\"id\": \"x2\", \"contents\": \"b\"}'' @ [0x0A],
      ustr ''{\"id\": \"x3\", \"contents\": \"c\", \"lang\": \"en\"}'' @ [0x0A]]"
  by code_simp

lemma demo_rows:
  "process_jsonl_line demo_py (ustr ''{\"id\": \"x1\", \"contents\": \"a caption\"}'' @ [0x0A]) =
     Inr (ustr ''{\"id\": \"x1\", \"title\": \"a caption\"}'')"
  "process_jsonl_line demo_py (ustr ''{\"id\": \"x2\", \"contents\": \"b\"}'' @ [0x0A]) =
     Inr (ustr ''{\"id\": \"x2\", \"title\": \"b\"}'')"
  "process_jsonl_line demo_py (ustr ''{\"id\": \"x3\", \"contents\": \"c\", \"lang\": \"en\"}'' @ [0x0A]) =
     Inr (ustr ''{\"id\": \"x3\", \"title\": \"c\"}'')"
  by code_simp+

lemma demo_transformable:
  "\<forall>l \<in> set (file_lines (data demo_disk [''in.jsonl''])). \<exists>row. process_jsonl_line demo_py l = Inr row"
  by (simp add: demo_lines demo_rows)


text \<open>The example disk with the three chunks finishing last to first.\<close>

theorem convert_keeps_order_witness:
  "\<exists>d' rows.
     convert_jsonl_for_search [2, 1, 0] demo_py [''in.jsonl''] [''out.jsonl''] demo_disk = (None, d') \<and>
     list_all2 (\<lambda>l row. process_jsonl_line demo_py l = Inr row)
       (file_lines (data demo_disk [''in.jsonl''])) rows \<and>
     file_lines (data d' [''out.jsonl'']) = map (\<lambda>row. row @ [0x0A]) rows"
proof -
  have ne: "[''in.jsonl''] \<noteq> [''out.jsonl'']" by simp
  show ?thesis
    by (rule convert_keeps_order [OF demo_open_read demo_open_write ne demo_transformable demo_repr_printable])
qed

lemma demo_open_write_data:
  "data (demo_disk\<lparr>data := (data demo_disk)([''out.jsonl''] := [])\<rparr>) [''in.jsonl''] =
     data demo_disk [''in.jsonl'']"
  by simp

lemma demo_mapstar:
  "mapstar (process_jsonl_line demo_py)
     (file_lines (data (demo_disk\<lparr>data := (data demo_disk)([''out.jsonl''] := [])\<rparr>) [''in.jsonl''])) =
   Inr [ustr ''{\"id\": \"x1\", \"title\": \"a caption\"}'',
        ustr ''{\"id\": \"x2\", \"title\": \"b\"}'',
        ustr ''{\"id\": \"x3\", \"title\": \"c\"}'']"
  by (simp only: demo_open_write_data demo_lines) (simp add: demo_rows)

lemma demo_convert:
  "convert_jsonl_for_search sched demo_py [''in.jsonl''] [''out.jsonl''] demo_disk =
     (None, demo_disk\<lparr>data := (data demo_disk)([''out.jsonl''] := [])\<rparr>
        \<lparr>data := (data (demo_disk\<lparr>data := (data demo_disk)([''out.jsonl''] := [])\<rparr>))
           ([''out.jsonl''] := concat (map (\<lambda>row. row @ [0x0A])
              [ustr ''{\"id\": \"x1\", \"title\": \"a caption\"}'',
               ustr ''{\"id\": \"x2\", \"title\": \"b\"}'',
               ustr ''{\"id\": \"x3\", \"title\": \"c\"}'']))\<rparr>)"
proof -
  have n: "1 \<le> (16::nat)" by simp
  show ?thesis
    unfolding convert_jsonl_for_search_def
    by (rule convert_success [OF demo_open_read demo_open_write n demo_mapstar])
qed

lemma demo_output:
  "data (snd (convert_jsonl_for_search sched demo_py [''in.jsonl''] [''out.jsonl''] demo_disk))
     [''out.jsonl''] =
   ustr ''{\"id\": \"x1\", \"title\": \"a caption\"}'' @ [0x0A] @
   ustr ''{\"id\": \"x2\", \"title\": \"b\"}'' @ [0x0A] @
   ustr ''{\"id\": \"x3\", \"title\": \"c\"}'' @ [0x0A]"
  by (simp add: demo_convert)

text \<open>Claim C6 as the specification states it (the written lines follow the order in
  which the workers finish, so that some input and some order of completion give an
  output in another order than the input) fails on the example disk. The pool of 16 cuts
  the three lines into three chunks of one line; when they finish last to first, the
  output still holds the three transformed lines in input order; and no order of
  completion gives anything else.\<close>

theorem convert_follows_completion_order_counterexample:
  "get_tasks (chunksize 16 3) (file_lines (data demo_disk [''in.jsonl''])) =
     [[ustr ''{\"id\": \"x1\", \"contents\": \"a caption\"}'' @ [0x0A]],
      [ustr ''{\"id\": \"x2\", \"contents\": \"b\"}'' @ [0x0A]],
      [ustr ''{\"id\": \"x3\", \"contents\": \"c\", \"lang\": \"en\"}'' @ [0x0A]]] \<and>
   completion_order 3 [2, 1, 0] = [2, 1, 0] \<and>
   data (snd (convert_jsonl_for_search [2, 1, 0] demo_py [''in.jsonl''] [''out.jsonl''] demo_disk))
     [''out.jsonl''] =
     ustr ''{\"id\": \"x1\", \"title\": \"a caption\"}'' @ [0x0A] @
     ustr ''{\"id\": \"x2\", \"title\": \"b\"}'' @ [0x0A] @
     ustr ''{\"id\": \"x3\", \"title\": \"c\"}'' @ [0x0A] \<and>
   \<not> (\<exists>sched.
        data (snd (convert_jsonl_for_search sched demo_py [''in.jsonl''] [''out.jsonl''] demo_disk))
          [''out.jsonl''] \<noteq>
        ustr ''{\"id\": \"x1\", \"title\": \"a caption\"}'' @ [0x0A] @
        ustr ''{\"id\": \"x2\", \"title\": \"b\"}'' @ [0x0A] @
        ustr ''{\"id\": \"x3\", \"title\": \"c\"}'' @ [0x0A])"
proof -
  have a: "get_tasks (chunksize 16 3) (file_lines (data demo_disk [''in.jsonl''])) =
     [[ustr ''{\"id\": \"x1\", \"contents\": \"a caption\"}'' @ [0x0A]],
      [ustr ''{\"id\": \"x2\", \"contents\": \"b\"}'' @ [0x0A]],
      [ustr ''{\"id\": \"x3\", \"contents\": \"c\", \"lang\": \"en\"}'' @ [0x0A]]]"
    by (simp only: demo_lines) code_simp
  have b: "completion_order 3 [2, 1, 0] = [2, 1, 0]"
    by code_simp
  from a b demo_output show ?thesis by simp
qed

lemma bad_open_read: "open_read [''in.jsonl''] demo_disk_bad = Inr [''in.jsonl'']"
  by (simp add: open_read_def demo_disk_bad_def numeral_eq_Suc)

lemma bad_open_write:
  "open_write [''out.jsonl''] demo_disk_bad =
     Inr ([''out.jsonl''], demo_disk_bad\<lparr>data := (data demo_disk_bad)([''out.jsonl''] := [])\<rparr>)"
  by (simp add: open_write_def demo_disk_bad_def numeral_eq_Suc)

lemma bad_line:
  "\<exists>l \<in> set (file_lines (data (demo_disk_bad\<lparr>data := (data demo_disk_bad)([''out.jsonl''] := [])\<rparr>)
       [''in.jsonl''])). \<exists>e. process_jsonl_line demo_py l = Inl e"
proof -
  have "file_lines (data (demo_disk_bad\<lparr>data := (data demo_disk_bad)([''out.jsonl''] := [])\<rparr>)
       [''in.jsonl'']) =
     [ustr ''{\"id\": \"x1\", \"contents\": \"a caption\"}'' @ [0x0A], ustr ''{\"id\": \"x2\"}'' @ [0x0A]]"
    by code_simp
  moreover have "process_jsonl_line demo_py (ustr ''{\"id\": \"x2\"}'' @ [0x0A]) =
      Inl (KeyError (ustr ''contents''))"
    by code_simp
  ultimately show ?thesis by simp
qed

text \<open>The second example disk: the output held a stale line before the call, the second
  input line raises, and the output is left empty.\<close>

theorem convert_failure_leaves_empty_output_witness:
  "data demo_disk_bad [''out.jsonl''] = ustr ''stale'' @ [0x0A] \<and>
   (\<exists>e. convert_with_pool 16 [] demo_py [''in.jsonl''] [''out.jsonl''] demo_disk_bad =
          (Some e, demo_disk_bad\<lparr>data := (data demo_disk_bad)([''out.jsonl''] := [])\<rparr>) \<and>
        map_of (tree (demo_disk_bad\<lparr>data := (data demo_disk_bad)([''out.jsonl''] := [])\<rparr>))
          [''out.jsonl''] = Some RegularFile \<and>
        data (demo_disk_bad\<lparr>data := (data demo_disk_bad)([''out.jsonl''] := [])\<rparr>) [''out.jsonl''] = [])"
proof -
  have n: "1 \<le> (16::nat)" by simp
  have s: "data demo_disk_bad [''out.jsonl''] = ustr ''stale'' @ [0x0A]"
    by (simp add: demo_disk_bad_def)
  from s convert_failure_leaves_empty_output [OF bad_open_read bad_open_write n bad_line, of "[]"]
  show ?thesis by (intro conjI)
qed

section \<open>Properties of prep_qrels\<close>

lemma csv_field_plain: "plain_cell f \<Longrightarrow> csv_field f = f"
  by (auto simp: plain_cell_def csv_field_def)

lemma to_csv_plain:
  assumes cols: "set cols \<subseteq> set (column_names ds)"
    and plain: "\<forall>r \<in> set (records ds). \<forall>c \<in> set cols. plain_cell (r c)"
    and two: "2 \<le> length cols"
  shows "to_csv cols ds = Inr (concat (map (\<lambda>r. join [0x20] (map r cols) @ [0x0A]) (records ds)))"
proof -
  from cols have f: "find (\<lambda>c. c \<notin> set (column_names ds)) cols = None"
    by (auto simp: find_None_iff)
  have row: "csv_row (map r cols) = join [0x20] (map r cols) @ [0x0A]" if "r \<in> set (records ds)" for r
  proof -
    from two have "length (map r cols) \<noteq> length [[]::pystr]" by simp
    then have ne: "map r cols \<noteq> [[]]" by metis
    from that plain have "map csv_field (map r cols) = map r cols"
      by (auto simp: csv_field_plain)
    with ne show ?thesis by (simp add: csv_row_def del: map_map)
  qed
  have eq: "map (\<lambda>r. csv_row (map r cols)) (records ds) =
      map (\<lambda>r. join [0x20] (map r cols) @ [0x0A]) (records ds)"
    by (rule map_cong [OF refl]) (rule row)
  show ?thesis unfolding to_csv_def f eq by simp
qed

lemma map_of_snoc_other: "q \<noteq> p \<Longrightarrow> map_of (fs @ [(p, n)]) q = map_of fs q"
  by (auto simp: map_add_def split: option.splits)

lemma mkdir_exist_ok_fresh:
  assumes "map_of t p = None \<or> map_of t p = Some Directory"
    and "map_of t (butlast p) = Some Directory"
  shows "\<exists>t'. mkdir_exist_ok p t = Inr t' \<and> map_of t' p = Some Directory \<and>
           (\<forall>q. q \<noteq> p \<longrightarrow> map_of t' q = map_of t q)"
  using assms map_of_snoc_new [of t p Directory]
  by (auto simp: mkdir_exist_ok_def map_of_snoc_other simp del: map_of_append)

lemma follow_plain:
  "map_of t p = None \<or> map_of t p = Some RegularFile \<Longrightarrow> follow n t p = Inr p"
  by (cases n) auto

lemma open_write_plain:
  assumes "map_of (tree d) p = None \<or> map_of (tree d) p = Some RegularFile"
    and "map_of (tree d) (butlast p) = Some Directory"
  shows "\<exists>d1. open_write p d = Inr (p, d1) \<and> data d1 = (data d)(p := []) \<and>
           (\<forall>q. q \<noteq> p \<longrightarrow> map_of (tree d1) q = map_of (tree d) q)"
proof -
  from assms(1) have f: "follow 40 (tree d) p = Inr p" by (rule follow_plain)
  from assms(1) show ?thesis
  proof
    assume n: "map_of (tree d) p = None"
    with f assms(2) have "open_write p d =
        Inr (p, d\<lparr>tree := tree d @ [(p, RegularFile)], data := (data d)(p := [])\<rparr>)"
      by (simp add: open_write_def)
    then show ?thesis by (simp add: map_of_snoc_other del: map_of_append)
  next
    assume "map_of (tree d) p = Some RegularFile"
    with f have "open_write p d = Inr (p, d\<lparr>data := (data d)(p := [])\<rparr>)"
      by (simp add: open_write_def)
    then show ?thesis by simp
  qed
qed

lemma to_csv_file_plain:
  assumes "map_of (tree d) p = None \<or> map_of (tree d) p = Some RegularFile"
    and "map_of (tree d) (butlast p) = Some Directory"
    and "to_csv cols ds = Inr text"
  shows "\<exists>d'. to_csv_file p cols ds d = Inr d' \<and> data d' = (data d)(p := text) \<and>
           (\<forall>q. q \<noteq> p \<longrightarrow> map_of (tree d') q = map_of (tree d) q)"
proof -
  from open_write_plain [OF assms(1,2)] obtain d1 where
    o: "open_write p d = Inr (p, d1)" and dd: "data d1 = (data d)(p := [])" and
    tt: "\<forall>q. q \<noteq> p \<longrightarrow> map_of (tree d1) q = map_of (tree d) q"
    by blast
  have "to_csv_file p cols ds d = Inr (write_text p text d1)"
    by (simp add: to_csv_file_def o assms(3))
  moreover have "data (write_text p text d1) = (data d)(p := text)"
    by (simp add: write_text_def dd fun_eq_iff)
  moreover have "tree (write_text p text d1) = tree d1"
    by (simp add: write_text_def)
  ultimately show ?thesis using tt by simp
qed

text \<open>Claim C3, as amended. Let the output directory exist, \<^verbatim>\<open>qrels\<close> be absent or a
  directory, the two files be absent or regular files, and the dataset have the four
  columns and only fields without space, quote or line break. Then \<open>prep_qrels\<close>
  returns normally; the i2t file holds, for each record, the line
  \<^verbatim>\<open>image_id Q0 text_id rel\<close> of its values, separated by single spaces and without a
  header; and the t2i file holds, for each record, its values in the dataset's own column
  order.\<close>

theorem prep_qrels_files:
  assumes root: "map_of (tree d) [] = Some Directory"
    and qd: "map_of (tree d) [''qrels''] = None \<or> map_of (tree d) [''qrels''] = Some Directory"
    and f1: "map_of (tree d) [''qrels'', split @ ''.qrels.t2i.projected.trec''] = None \<or>
             map_of (tree d) [''qrels'', split @ ''.qrels.t2i.projected.trec''] = Some RegularFile"
    and f2: "map_of (tree d) [''qrels'', split @ ''.qrels.i2t.projected.trec''] = None \<or>
             map_of (tree d) [''qrels'', split @ ''.qrels.i2t.projected.trec''] = Some RegularFile"
    and ld: "load_dataset qrels_ds split = Inr ds"
    and cols: "{''image_id'', ''Q0'', ''text_id'', ''rel''} \<subseteq> set (column_names ds)"
    and plain: "\<forall>r \<in> set (records ds). \<forall>c \<in> set (column_names ds). plain_cell (r c)"
  shows "\<exists>d'. prep_qrels load_dataset qrels_ds split d = Inr d' \<and>
           data d' [''qrels'', split @ ''.qrels.i2t.projected.trec''] =
             concat (map (\<lambda>r. r ''image_id'' @ [0x20] @ r ''Q0'' @ [0x20] @ r ''text_id'' @ [0x20] @
                               r ''rel'' @ [0x0A]) (records ds)) \<and>
           data d' [''qrels'', split @ ''.qrels.t2i.projected.trec''] =
             concat (map (\<lambda>r. join [0x20] (map r (column_names ds)) @ [0x0A]) (records ds))"
proof -
  let ?t2i = "[''qrels'', split @ ''.qrels.t2i.projected.trec'']"
  let ?i2t = "[''qrels'', split @ ''.qrels.i2t.projected.trec'']"
  let ?four = "[''image_id'', ''Q0'', ''text_id'', ''rel'']"
  have ne: "?t2i \<noteq> ?i2t" by simp
  have "butlast [''qrels''] = []" by simp
  with root have "map_of (tree d) (butlast [''qrels'']) = Some Directory" by simp
  from mkdir_exist_ok_fresh [OF qd this] obtain t where
    mk: "mkdir_exist_ok [''qrels''] (tree d) = Inr t" and
    tq: "map_of t [''qrels''] = Some Directory" and
    tk: "\<forall>q. q \<noteq> [''qrels''] \<longrightarrow> map_of t q = map_of (tree d) q"
    by blast
  \<comment> \<open>the first file\<close>
  have two: "2 \<le> length (column_names ds)"
  proof (rule ccontr)
    assume "\<not> 2 \<le> length (column_names ds)"
    then consider "column_names ds = []" | x where "column_names ds = [x]"
      by (cases "column_names ds"; cases "tl (column_names ds)") auto
    then show False using cols by cases auto
  qed
  have c1: "to_csv (column_names ds) ds =
      Inr (concat (map (\<lambda>r. join [0x20] (map r (column_names ds)) @ [0x0A]) (records ds)))"
    using plain two by (intro to_csv_plain) auto
  have p1: "map_of (tree (d\<lparr>tree := t\<rparr>)) ?t2i = None \<or> map_of (tree (d\<lparr>tree := t\<rparr>)) ?t2i = Some RegularFile"
    using f1 tk by simp
  have b1: "map_of (tree (d\<lparr>tree := t\<rparr>)) (butlast ?t2i) = Some Directory"
    using tq by simp
  from to_csv_file_plain [OF p1 b1 c1] obtain d1 where
    w1: "to_csv_file ?t2i (column_names ds) ds (d\<lparr>tree := t\<rparr>) = Inr d1" and
    d1: "data d1 = (data d)(?t2i :=
           concat (map (\<lambda>r. join [0x20] (map r (column_names ds)) @ [0x0A]) (records ds)))" and
    t1: "\<forall>q. q \<noteq> ?t2i \<longrightarrow> map_of (tree d1) q = map_of t q"
    by auto
  \<comment> \<open>the second file\<close>
  have c2: "to_csv ?four ds = Inr (concat (map (\<lambda>r. join [0x20] (map r ?four) @ [0x0A]) (records ds)))"
    using plain cols by (intro to_csv_plain) auto
  have p2: "map_of (tree d1) ?i2t = None \<or> map_of (tree d1) ?i2t = Some RegularFile"
    using f2 tk t1 ne by simp
  have b2: "map_of (tree d1) (butlast ?i2t) = Some Directory"
    using tq t1 by simp
  from to_csv_file_plain [OF p2 b2 c2] obtain d2 where
    w2: "to_csv_file ?i2t ?four ds d1 = Inr d2" and
    d2: "data d2 = (data d1)(?i2t := concat (map (\<lambda>r. join [0x20] (map r ?four) @ [0x0A]) (records ds)))"
    by auto
  have run: "prep_qrels load_dataset qrels_ds split d = Inr d2"
    by (simp add: prep_qrels_def mk ld w1 w2)
  have i: "data d2 ?i2t =
      concat (map (\<lambda>r. r ''image_id'' @ [0x20] @ r ''Q0'' @ [0x20] @ r ''text_id'' @ [0x20] @
                        r ''rel'' @ [0x0A]) (records ds))"
    by (simp add: d2)
  have "data d2 ?t2i = data d1 ?t2i"
    by (simp add: d2)
  then have t: "data d2 ?t2i =
      concat (map (\<lambda>r. join [0x20] (map r (column_names ds)) @ [0x0A]) (records ds))"
    by (simp add: d1)
  from run i t show ?thesis by (intro exI conjI)
qed

lemma demo_plain: "\<forall>r \<in> set (records demo_qrels). \<forall>c \<in> set (column_names demo_qrels). plain_cell (r c)"
  by (simp add: demo_qrels_def demo_record_def plain_cell_def ustr_def)

text \<open>The record of the specification in a dataset with the columns \<^verbatim>\<open>text_id\<close>,
  \<^verbatim>\<open>Q0\<close>, \<^verbatim>\<open>image_id\<close>, \<^verbatim>\<open>rel\<close>: the line \<^verbatim>\<open>i1 Q0 t1 1\<close> is in the i2t file, and
  the t2i file holds the line with the two ids swapped.\<close>

theorem prep_qrels_files_witness:
  "\<exists>d'. prep_qrels (\<lambda>name split. Inr demo_qrels) ''TREC-AToMiC/AToMiC-Qrels-v0.2'' ''validation''
           empty_disk = Inr d' \<and>
         data d' [''qrels'', ''validation.qrels.i2t.projected.trec''] = ustr ''i1 Q0 t1 1'' @ [0x0A] \<and>
         data d' [''qrels'', ''validation.qrels.t2i.projected.trec''] = ustr ''t1 Q0 i1 1'' @ [0x0A]"
proof -
  have root: "map_of (tree empty_disk) [] = Some Directory"
    by (simp add: empty_disk_def)
  have qd: "map_of (tree empty_disk) [''qrels''] = None \<or>
      map_of (tree empty_disk) [''qrels''] = Some Directory"
    by (simp add: empty_disk_def)
  have f1: "map_of (tree empty_disk) [''qrels'', ''validation'' @ ''.qrels.t2i.projected.trec''] = None \<or>
      map_of (tree empty_disk) [''qrels'', ''validation'' @ ''.qrels.t2i.projected.trec''] = Some RegularFile"
    by (simp add: empty_disk_def)
  have f2: "map_of (tree empty_disk) [''qrels'', ''validation'' @ ''.qrels.i2t.projected.trec''] = None \<or>
      map_of (tree empty_disk) [''qrels'', ''validation'' @ ''.qrels.i2t.projected.trec''] = Some RegularFile"
    by (simp add: empty_disk_def)
  have cols: "{''image_id'', ''Q0'', ''text_id'', ''rel''} \<subseteq> set (column_names demo_qrels)"
    by (simp add: demo_qrels_def)
  from prep_qrels_files
    [where load_dataset = "\<lambda>name split. Inr demo_qrels"
       and qrels_ds = "''TREC-AToMiC/AToMiC-Qrels-v0.2''" and ds = demo_qrels,
     OF root qd f1 f2 refl cols demo_plain]
  show ?thesis by (simp add: demo_qrels_def demo_record_def ustr_def)
qed

lemma demo_prep_qrels:
  "(case prep_qrels (\<lambda>name split. Inr demo_qrels) ''TREC-AToMiC/AToMiC-Qrels-v0.2'' ''validation''
           empty_disk of
      Inl e \<Rightarrow> None
    | Inr d' \<Rightarrow> Some (data d' [''qrels'', ''validation.qrels.t2i.projected.trec''],
                     data d' [''qrels'', ''validation.qrels.i2t.projected.trec''])) =
   Some (ustr ''t1 Q0 i1 1'' @ [0x0A], ustr ''i1 Q0 t1 1'' @ [0x0A])"
  by code_simp

lemma demo_prep_qrels_image_first:
  "(case prep_qrels (\<lambda>name split. Inr demo_qrels_image_first) ''TREC-AToMiC/AToMiC-Qrels-v0.2''
           ''validation'' empty_disk of
      Inl e \<Rightarrow> None
    | Inr d' \<Rightarrow> Some (data d' [''qrels'', ''validation.qrels.t2i.projected.trec''],
                     data d' [''qrels'', ''validation.qrels.i2t.projected.trec''])) =
   Some (ustr ''i1 Q0 t1 1'' @ [0x0A], ustr ''i1 Q0 t1 1'' @ [0x0A])"
  by code_simp

text \<open>Claim C3 as the specification states it (the line \<^verbatim>\<open>i1 Q0 t1 1\<close> in the t2i
  file, and in the i2t file that line with the id columns swapped) fails for the record
  of the specification, in whichever order the dataset has its columns. With the text id
  first, the t2i file holds \<^verbatim>\<open>t1 Q0 i1 1\<close> and it is the i2t file that holds
  \<^verbatim>\<open>i1 Q0 t1 1\<close>; with the image id first, the t2i file does hold \<^verbatim>\<open>i1 Q0 t1 1\<close>, and
  the i2t file holds the very same line.\<close>

theorem prep_qrels_t2i_line_counterexample:
  "(\<exists>d'. prep_qrels (\<lambda>name split. Inr demo_qrels) ''TREC-AToMiC/AToMiC-Qrels-v0.2'' ''validation''
            empty_disk = Inr d' \<and>
          data d' [''qrels'', ''validation.qrels.t2i.projected.trec''] = ustr ''t1 Q0 i1 1'' @ [0x0A] \<and>
          data d' [''qrels'', ''validation.qrels.t2i.projected.trec''] \<noteq> ustr ''i1 Q0 t1 1'' @ [0x0A] \<and>
          data d' [''qrels'', ''validation.qrels.i2t.projected.trec''] = ustr ''i1 Q0 t1 1'' @ [0x0A]) \<and>
   (\<exists>d'. prep_qrels (\<lambda>name split. Inr demo_qrels_image_first) ''TREC-AToMiC/AToMiC-Qrels-v0.2''
            ''validation'' empty_disk = Inr d' \<and>
          data d' [''qrels'', ''validation.qrels.t2i.projected.trec''] = ustr ''i1 Q0 t1 1'' @ [0x0A] \<and>
          data d' [''qrels'', ''validation.qrels.i2t.projected.trec''] =
            data d' [''qrels'', ''validation.qrels.t2i.projected.trec''])"
proof -
  have ne: "ustr ''t1 Q0 i1 1'' @ [0x0A] \<noteq> ustr ''i1 Q0 t1 1'' @ [0x0A]"
    by (simp add: ustr_def)
  from demo_prep_qrels ne have a: "\<exists>d'. prep_qrels (\<lambda>name split. Inr demo_qrels)
        ''TREC-AToMiC/AToMiC-Qrels-v0.2'' ''validation'' empty_disk = Inr d' \<and>
      data d' [''qrels'', ''validation.qrels.t2i.projected.trec''] = ustr ''t1 Q0 i1 1'' @ [0x0A] \<and>
      data d' [''qrels'', ''validation.qrels.t2i.projected.trec''] \<noteq> ustr ''i1 Q0 t1 1'' @ [0x0A] \<and>
      data d' [''qrels'', ''validation.qrels.i2t.projected.trec''] = ustr ''i1 Q0 t1 1'' @ [0x0A]"
    by (auto split: sum.splits)
  from demo_prep_qrels_image_first have b: "\<exists>d'. prep_qrels (\<lambda>name split. Inr demo_qrels_image_first)
        ''TREC-AToMiC/AToMiC-Qrels-v0.2'' ''validation'' empty_disk = Inr d' \<and>
      data d' [''qrels'', ''validation.qrels.t2i.projected.trec''] = ustr ''i1 Q0 t1 1'' @ [0x0A] \<and>
      data d' [''qrels'', ''validation.qrels.i2t.projected.trec''] =
        data d' [''qrels'', ''validation.qrels.t2i.projected.trec'']"
    by (auto split: sum.splits)
  from a b show ?thesis by (rule conjI)
qed

end
